theory Spec2Isabelle
  imports Main "HOL-Library.Sublist"
begin

section \<open>Position model and AST nodes (ast.ts, lines 1-64)\<close>

text \<open>
  Line and column numbers are JavaScript numbers that only ever hold small
  non-negative integers here; they are modelled as natural numbers.  The field
  \<open>end\<close> of a range is written \<open>end'\<close>.
\<close>

record Location =
  line :: nat
  column :: nat

record Range =
  start :: Location
  end' :: Location

record Mapping =
  source :: "Range option"
  destination :: "Range option"

text \<open>
  The tagged union \<open>AstNode\<close>.  The \<open>kind\<close> tag is the constructor.  A
  declaration's \<open>value\<close> is typed \<open>string\<close> in the source, but the serializer
  tests it against \<open>undefined\<close> and \<open>null\<close>, so it is optional here.
\<close>

datatype AstNode =
    Rule (selector: string) (nodes: "AstNode list") (mappings: "Mapping list")
  | Declaration (property: string) (decl_value: "string option") (important: bool)
      (mappings: "Mapping list")
  | Comment (comment_value: string) (mappings: "Mapping list")

text \<open>
  The three constructors.  The \<open>mappings\<close> parameter is optional in the source and
  defaults to the empty array; \<open>rule'\<close>, \<open>decl'\<close> and \<open>comment'\<close> are the calls
  that leave it out.
\<close>

definition rule :: "string \<Rightarrow> AstNode list \<Rightarrow> Mapping list option \<Rightarrow> AstNode" where
  "rule sel ns ms = Rule sel ns (case ms of None \<Rightarrow> [] | Some given \<Rightarrow> given)"

definition decl :: "string \<Rightarrow> string \<Rightarrow> Mapping list option \<Rightarrow> AstNode" where
  "decl p v ms = Declaration p (Some v) False (case ms of None \<Rightarrow> [] | Some given \<Rightarrow> given)"

definition comment :: "string \<Rightarrow> Mapping list option \<Rightarrow> AstNode" where
  "comment v ms = Comment v (case ms of None \<Rightarrow> [] | Some given \<Rightarrow> given)"

abbreviation rule' :: "string \<Rightarrow> AstNode list \<Rightarrow> AstNode" where
  "rule' sel ns \<equiv> rule sel ns None"

abbreviation decl' :: "string \<Rightarrow> string \<Rightarrow> AstNode" where
  "decl' p v \<equiv> decl p v None"

abbreviation comment' :: "string \<Rightarrow> AstNode" where
  "comment' v \<equiv> comment v None"

section \<open>The serializer (ast.ts, lines 111-229)\<close>

text \<open>
  The closure variables \<open>atRoots\<close> and \<open>seenAtProperties\<close> of one \<open>toCss\<close> call
  and the shared mutable \<open>location\<close> object (absent when destinations are not
  tracked) are threaded through the recursion as one state.
\<close>

record ctx =
  atRoots :: "AstNode list"
  seenAtProperties :: "string set"
  location :: "Location option"

abbreviation newline :: char where
  "newline \<equiv> CHR 0x0A"

text \<open>\<open>'  '.repeat(depth)\<close>\<close>

definition indent_of :: "nat \<Rightarrow> string" where
  "indent_of depth = concat (replicate depth ''  '')"

text \<open>\<open>s.split(sep)\<close> for a one-character separator: the pieces between separators.\<close>

fun split_str :: "char \<Rightarrow> string \<Rightarrow> string list" where
  "split_str sep [] = [Nil]"
| "split_str sep (c # cs) =
     (if c = sep then [] # split_str sep cs
      else (case split_str sep cs of
              [] \<Rightarrow> [c # Nil]
            | p # ps \<Rightarrow> (c # p) # ps))"

text \<open>
  The block \<open>if (location) { node.mappings.push({source: null, destination: ...}) }\<close>,
  with both ends of the range at the cursor's line and the indentation's length,
  and the statement \<open>location.line += k\<close> under the same test.
\<close>

definition destination_at :: "nat \<Rightarrow> nat \<Rightarrow> Mapping" where
  "destination_at l c =
     \<lparr>source = None,
      destination = Some \<lparr>start = \<lparr>line = l, column = c\<rparr>, end' = \<lparr>line = l, column = c\<rparr>\<rparr>\<rparr>"

definition push_mapping :: "ctx \<Rightarrow> string \<Rightarrow> Mapping list \<Rightarrow> Mapping list" where
  "push_mapping st indent ms =
     (case location st of
        None \<Rightarrow> ms
      | Some loc \<Rightarrow> ms @ [destination_at (line loc) (length indent)])"

definition advance :: "nat \<Rightarrow> ctx \<Rightarrow> ctx" where
  "advance k st =
     (case location st of
        None \<Rightarrow> st
      | Some loc \<Rightarrow> st\<lparr>location := Some (loc\<lparr>line := line loc + k\<rparr>)\<rparr>)"

text \<open>
  \<open>stringify\<close> returns the text, the state after the node, and the node as the call
  leaves it (its mappings and those of its descendants may have grown).
\<close>

fun stringify :: "nat \<Rightarrow> ctx \<Rightarrow> AstNode \<Rightarrow> string \<times> ctx \<times> AstNode"
  and stringifyAll :: "nat \<Rightarrow> ctx \<Rightarrow> AstNode list \<Rightarrow> string \<times> ctx \<times> AstNode list"
where
  "stringify depth st (Rule sel ns ms) =
     (let indent = indent_of depth in
      if sel = ''@at-root'' then
        ('''', st\<lparr>atRoots := atRoots st @ ns\<rparr>, Rule sel ns ms)
      else if sel = ''@tailwind utilities'' then
        (case stringifyAll depth st ns of
           (css, st', ns') \<Rightarrow> (css, st', Rule sel ns' ms))
      else if take 1 sel = ''@'' \<and> length ns = 0 then
        (indent @ sel @ [CHR '';'', newline], advance 1 st, Rule sel ns (push_mapping st indent ms))
      else if take 1 sel = ''@'' \<and> prefix ''@property '' sel \<and> depth = 0
              \<and> sel \<in> seenAtProperties st then
        ('''', st, Rule sel ns ms)
      else
        (let st1 = (if take 1 sel = ''@'' \<and> prefix ''@property '' sel \<and> depth = 0
                    then st\<lparr>seenAtProperties := insert sel (seenAtProperties st)\<rparr>
                    else st);
             ms1 = push_mapping st1 indent ms;
             st2 = advance 1 st1
         in case stringifyAll (depth + 1) st2 ns of
              (body, st3, ns') \<Rightarrow>
                (indent @ sel @ '' {'' @ [newline] @ body @ indent @ ''}'' @ [newline],
                 advance 1 st3, Rule sel ns' ms1)))"
| "stringify depth st (Comment v ms) =
     (let indent = indent_of depth in
      (indent @ ''/*'' @ v @ ''*/'' @ [newline],
       advance (1 + length (split_str newline v) - 1) st,
       Comment v (push_mapping st indent ms)))"
| "stringify depth st (Declaration p v imp ms) =
     (let indent = indent_of depth in
      case v of
        Some val \<Rightarrow>
          if p \<noteq> ''--tw-sort'' then
            (indent @ p @ '': '' @ val @ (if imp then ''!important'' else '''') @ [CHR '';'', newline],
             advance (1 + length (split_str newline val) - 1) st,
             Declaration p v imp (push_mapping st indent ms))
          else ('''', st, Declaration p v imp ms)
      | None \<Rightarrow> ('''', st, Declaration p v imp ms))"
| "stringifyAll depth st [] = ('''', st, [])"
| "stringifyAll depth st (child # rest) =
     (case stringify depth st child of
        (css1, st1, child') \<Rightarrow>
          (case stringifyAll depth st1 rest of
             (css2, st2, rest') \<Rightarrow> (css1 @ css2, st2, child' # rest')))"

text \<open>
  The nodes collected in \<open>atRoots\<close> are the very objects that sit below their
  \<open>@at-root\<close> rule, so what the second pass appends to them shows in the forest.
  \<open>put_back\<close> follows the first pass over the forest (the same branches, the same
  set of seen selectors) and puts below each \<open>@at-root\<close> rule it meets the next
  nodes of the hoisted sequence as the second pass left them.
\<close>

fun put_back :: "nat \<Rightarrow> string set \<Rightarrow> AstNode list \<Rightarrow> AstNode \<Rightarrow> AstNode \<times> string set \<times> AstNode list"
  and put_back_all :: "nat \<Rightarrow> string set \<Rightarrow> AstNode list \<Rightarrow> AstNode list
    \<Rightarrow> AstNode list \<times> string set \<times> AstNode list"
where
  "put_back depth seen hoisted (Rule sel ns ms) =
     (if sel = ''@at-root'' then
        (Rule sel (take (length ns) hoisted) ms, seen, drop (length ns) hoisted)
      else if sel = ''@tailwind utilities'' then
        (case put_back_all depth seen hoisted ns of
           (ns', seen', hoisted') \<Rightarrow> (Rule sel ns' ms, seen', hoisted'))
      else if take 1 sel = ''@'' \<and> length ns = 0 then (Rule sel ns ms, seen, hoisted)
      else if take 1 sel = ''@'' \<and> prefix ''@property '' sel \<and> depth = 0 \<and> sel \<in> seen then
        (Rule sel ns ms, seen, hoisted)
      else
        (case put_back_all (depth + 1)
                (if take 1 sel = ''@'' \<and> prefix ''@property '' sel \<and> depth = 0
                 then insert sel seen else seen) hoisted ns of
           (ns', seen', hoisted') \<Rightarrow> (Rule sel ns' ms, seen', hoisted')))"
| "put_back depth seen hoisted (Comment v ms) = (Comment v ms, seen, hoisted)"
| "put_back depth seen hoisted (Declaration p v imp ms) = (Declaration p v imp ms, seen, hoisted)"
| "put_back_all depth seen hoisted [] = ([], seen, hoisted)"
| "put_back_all depth seen hoisted (child # rest) =
     (case put_back depth seen hoisted child of
        (child', seen1, hoisted1) \<Rightarrow>
          (case put_back_all depth seen1 hoisted1 rest of
             (rest', seen2, hoisted2) \<Rightarrow> (child' # rest', seen2, hoisted2)))"

text \<open>
  \<open>toCss\<close>: the main forest at depth 0, then the nodes collected in \<open>atRoots\<close> at
  that moment at depth 0.  The result is the text, the forest as the call leaves it,
  the hoisted nodes as the call leaves them, and the final state.
\<close>

definition toCss_run :: "AstNode list \<Rightarrow> bool \<Rightarrow> string \<times> AstNode list \<times> AstNode list \<times> ctx" where
  "toCss_run ast trackDestination =
     (let st0 = \<lparr>atRoots = [], seenAtProperties = {},
                 location = (if trackDestination then Some \<lparr>line = 1, column = 0\<rparr> else None)\<rparr>
      in case stringifyAll 0 st0 ast of
           (css1, st1, ast') \<Rightarrow>
             (case stringifyAll 0 st1 (atRoots st1) of
                (css2, st2, hoisted') \<Rightarrow>
                  (css1 @ css2, fst (put_back_all 0 {} hoisted' ast'), hoisted', st2)))"

definition toCss :: "AstNode list \<Rightarrow> bool \<Rightarrow> string" where
  "toCss ast trackDestination = fst (toCss_run ast trackDestination)"

section \<open>The tree walker (ast.ts, lines 66-109)\<close>

text \<open>
  \<open>walk\<close> works on objects: it mutates the array it was given (\<open>splice\<close>), hands
  node objects to a callback that may mutate them, and goes into \<open>node.nodes\<close>, an
  array that may be shared with the one a \<open>replaceWith\<close> filled (as after
  \<open>replaceWith(node.nodes)\<close>).  So the walker is modelled over a store: node objects
  and arrays have references, a rule object holds the reference of its child array,
  and an array holds references of node objects.
\<close>

type_synonym nref = nat
type_synonym aref = nat

datatype obj =
    RuleObj string aref "Mapping list"
  | DeclarationObj string "string option" bool "Mapping list"
  | CommentObj string "Mapping list"

record heap =
  objs :: "nref \<Rightarrow> obj"
  arrays :: "aref \<Rightarrow> nref list"

datatype WalkAction = Continue | Skip | Stop

text \<open>
  The argument of \<open>replaceWith\<close> is one node or an array of nodes;
  \<open>items\<close> is \<open>Array.isArray(newNode) ? newNode : [newNode]\<close>, the elements the
  spread hands to \<open>splice\<close>.
\<close>

datatype replacement = One nref | Many "nref list"

fun items :: "replacement \<Rightarrow> nref list" where
  "items (One n) = [n]"
| "items (Many ns) = ns"

text \<open>
  The visitor is a callback with effects.  During one call it can change the state it
  closes over, change the store (edit a node or an array in place, create objects),
  call the \<open>replaceWith\<close> it was handed, in any order and any number of times, and
  return a directive or nothing.  A visitor is therefore a function from its own
  state, the store and the value it is handed to the new state, the steps it takes in
  order, and the value it returns.  The value it is handed is \<open>ast[i]\<close>, which is
  \<open>undefined\<close> (\<open>None\<close>) when the index is negative.
\<close>

datatype step = Edit "heap \<Rightarrow> heap" | ReplaceWith replacement

type_synonym 's visitor = "'s \<Rightarrow> heap \<Rightarrow> nref option \<Rightarrow> 's \<times> step list \<times> WalkAction option"

text \<open>
  \<open>xs.splice(first, deleteCount, ...new)\<close>: a negative first index counts from the end,
  the index is clamped to the array and the delete count to what is left.
\<close>

definition array_splice :: "int \<Rightarrow> nat \<Rightarrow> 'a list \<Rightarrow> 'a list \<Rightarrow> 'a list" where
  "array_splice first deleteCount new xs =
     (let len = int (length xs);
          from = (if first < 0 then max (len + first) 0 else min first len);
          del = min (int deleteCount) (len - from)
      in take (nat from) xs @ new @ drop (nat (from + del)) xs)"

text \<open>
  The steps of one visit, run on the store and the loop index.  A call of
  \<open>replaceWith\<close> is \<open>ast.splice(i, 1, ...); i--\<close> on the array being walked, with
  the index as the calls before it left it.
\<close>

fun run_steps :: "aref \<Rightarrow> step list \<Rightarrow> heap \<times> int \<Rightarrow> heap \<times> int" where
  "run_steps a [] (h, i) = (h, i)"
| "run_steps a (Edit f # rest) (h, i) = run_steps a rest (f h, i)"
| "run_steps a (ReplaceWith r # rest) (h, i) =
     run_steps a rest
       (h\<lparr>arrays := (arrays h)(a := array_splice i 1 (items r) (arrays h a))\<rparr>, i - 1)"

datatype error = TypeError

text \<open>
  The loop of \<open>walk\<close> on the array \<open>a\<close> from index \<open>i\<close>.  A visitor may replace
  nodes for ever, so the loop takes fuel: one unit per visit, and \<open>None\<close> when it runs
  out.  The result is the visitor's state and the store as the walk leaves them.
  \<open>return\<close> on \<open>Stop\<close> leaves this call of \<open>walk\<close> only: the caller gets no
  value back and goes on.  The variable \<open>node\<close> is read before the visit; its kind
  and its \<open>nodes\<close> are read after it, from the object as it then is, whether or not
  it is still in the array.  When \<open>node\<close> is \<open>undefined\<close> the visitor is called
  all the same, and reading \<open>node.kind\<close> raises a \<open>TypeError\<close> unless the
  directive was \<open>Stop\<close> or \<open>Skip\<close>.
\<close>

fun walk_from :: "nat \<Rightarrow> 's visitor \<Rightarrow> 's \<Rightarrow> heap \<Rightarrow> aref \<Rightarrow> int
    \<Rightarrow> (error + 's \<times> heap) option" where
  "walk_from 0 visit s h a i = None"
| "walk_from (Suc fuel) visit s h a i =
     (if \<not> i < int (length (arrays h a)) then Some (Inr (s, h))
      else
        (let node = (if 0 \<le> i then Some (arrays h a ! nat i) else None) in
         case visit s h node of
           (s1, steps, status) \<Rightarrow>
             (case run_steps a steps (h, i) of
                (h1, i1) \<Rightarrow>
                  (case (case status of None \<Rightarrow> Continue | Some d \<Rightarrow> d) of
                     Stop \<Rightarrow> Some (Inr (s1, h1))
                   | Skip \<Rightarrow> walk_from fuel visit s1 h1 a (i1 + 1)
                   | Continue \<Rightarrow>
                       (case node of
                          None \<Rightarrow> Some (Inl TypeError)
                        | Some n \<Rightarrow>
                            (case objs h1 n of
                               RuleObj sel kids ms \<Rightarrow>
                                 (case walk_from fuel visit s1 h1 kids 0 of
                                    None \<Rightarrow> None
                                  | Some (Inl e) \<Rightarrow> Some (Inl e)
                                  | Some (Inr (s2, h2)) \<Rightarrow> walk_from fuel visit s2 h2 a (i1 + 1))
                             | DeclarationObj p v imp ms \<Rightarrow> walk_from fuel visit s1 h1 a (i1 + 1)
                             | CommentObj v ms \<Rightarrow> walk_from fuel visit s1 h1 a (i1 + 1)))))))"

definition walk :: "nat \<Rightarrow> 's visitor \<Rightarrow> 's \<Rightarrow> heap \<Rightarrow> aref \<Rightarrow> (error + 's \<times> heap) option" where
  "walk fuel visit s h ast = walk_from fuel visit s h ast 0"

section \<open>Vocabulary for the statements\<close>

subsection \<open>About the serializer\<close>

text \<open>
  Whether a node produces a line of its own where \<open>stringify\<close> meets it: not an
  \<open>@at-root\<close> or \<open>@tailwind utilities\<close> rule, not a rule dropped as a duplicate
  \<open>@property\<close>, not a declaration that is passed over.
\<close>

fun emitted :: "nat \<Rightarrow> ctx \<Rightarrow> AstNode \<Rightarrow> bool" where
  "emitted depth st (Rule sel ns ms) =
     (sel \<noteq> ''@at-root'' \<and> sel \<noteq> ''@tailwind utilities''
      \<and> \<not> (ns \<noteq> [] \<and> prefix ''@property '' sel \<and> depth = 0 \<and> sel \<in> seenAtProperties st))"
| "emitted depth st (Comment v ms) = True"
| "emitted depth st (Declaration p v imp ms) = (p \<noteq> ''--tw-sort'' \<and> v \<noteq> None)"

text \<open>No selector and no property name of the tree holds a line break.\<close>

fun names_on_one_line :: "AstNode \<Rightarrow> bool"
  and forest_names_on_one_line :: "AstNode list \<Rightarrow> bool" where
  "names_on_one_line (Rule sel ns ms) = (newline \<notin> set sel \<and> forest_names_on_one_line ns)"
| "names_on_one_line (Declaration p v imp ms) = (newline \<notin> set p)"
| "names_on_one_line (Comment v ms) = True"
| "forest_names_on_one_line [] = True"
| "forest_names_on_one_line (n # ns) = (names_on_one_line n \<and> forest_names_on_one_line ns)"

text \<open>
  Lines 165-172 for a rule that is rendered as a block: at depth 0 the selector of an
  \<open>@property\<close> rule joins the set of seen selectors.
\<close>

definition mark_seen :: "nat \<Rightarrow> string \<Rightarrow> ctx \<Rightarrow> ctx" where
  "mark_seen depth sel st =
     (if prefix ''@property '' sel \<and> depth = 0
      then st\<lparr>seenAtProperties := insert sel (seenAtProperties st)\<rparr>
      else st)"


subsection \<open>About the walker\<close>

text \<open>A visitor wrapped so that it also records, in order, every value it is handed.\<close>

definition logged :: "'s visitor \<Rightarrow> ('s \<times> nref option list) visitor" where
  "logged visit =
     (\<lambda>(s, log) h node. case visit s h node of (s', steps, st) \<Rightarrow> ((s', log @ [node]), steps, st))"

text \<open>The child array of an object, if it is a rule.\<close>

fun kids_of :: "obj \<Rightarrow> aref option" where
  "kids_of (RuleObj sel kids ms) = Some kids"
| "kids_of (DeclarationObj p v imp ms) = None"
| "kids_of (CommentObj v ms) = None"

text \<open>
  A forest as the walker meets it: which object stands at each position.  A store
  holds the forest \<open>ts\<close> at the array \<open>a\<close> when the array lists the roots of \<open>ts\<close>
  and, below every rule, its child array lists the roots of the subtrees; an object
  that is not a rule has none.
\<close>

datatype rtree = RNode (root: nref) (subtrees: "rtree list")

fun shape :: "heap \<Rightarrow> rtree \<Rightarrow> bool" where
  "shape h (RNode r ts) =
     (case kids_of (objs h r) of
        None \<Rightarrow> ts = []
      | Some k \<Rightarrow> arrays h k = map root ts \<and> (\<forall>t\<in>set ts. shape h t))"

definition forest_shape :: "heap \<Rightarrow> aref \<Rightarrow> rtree list \<Rightarrow> bool" where
  "forest_shape h a ts = (arrays h a = map root ts \<and> list_all (shape h) ts)"

text \<open>The nodes of a tree and of a forest in depth-first pre-order, and their number.\<close>

fun preorder :: "rtree \<Rightarrow> nref list"
  and preorder_forest :: "rtree list \<Rightarrow> nref list" where
  "preorder (RNode r ts) = r # preorder_forest ts"
| "preorder_forest [] = []"
| "preorder_forest (t # ts) = preorder t @ preorder_forest ts"

fun node_count :: "rtree \<Rightarrow> nat"
  and forest_count :: "rtree list \<Rightarrow> nat" where
  "node_count (RNode r ts) = Suc (forest_count ts)"
| "forest_count [] = 0"
| "forest_count (t # ts) = node_count t + forest_count ts"

text \<open>
  An edit keeps the forest when it changes no array and leaves every object a rule
  with the child array it had, or not a rule.  A visitor is an onlooker on a set of
  its states when from a state of the set it stays in the set, never calls
  \<open>replaceWith\<close>, makes only such edits, and returns \<open>Continue\<close> or nothing.
\<close>

definition keeps_forest :: "(heap \<Rightarrow> heap) \<Rightarrow> bool" where
  "keeps_forest f = (\<forall>h. arrays (f h) = arrays h \<and> (\<forall>r. kids_of (objs (f h) r) = kids_of (objs h r)))"

fun harmless :: "step \<Rightarrow> bool" where
  "harmless (Edit f) = keeps_forest f"
| "harmless (ReplaceWith r) = False"

definition onlooker_on :: "'s set \<Rightarrow> 's visitor \<Rightarrow> bool" where
  "onlooker_on S visit =
     (\<forall>s\<in>S. \<forall>h node.
        fst (visit s h node) \<in> S
        \<and> list_all harmless (fst (snd (visit s h node)))
        \<and> (snd (snd (visit s h node)) = None \<or> snd (snd (visit s h node)) = Some Continue))"

text \<open>The number of calls of \<open>replaceWith\<close> among the steps of a visit.\<close>

fun replace_count :: "step list \<Rightarrow> nat" where
  "replace_count [] = 0"
| "replace_count (Edit f # rest) = replace_count rest"
| "replace_count (ReplaceWith r # rest) = Suc (replace_count rest)"

subsection \<open>The stores and the visitors of the examples\<close>

text \<open>
  A store with nothing in it; a forest of ten nodes, a rule with three declarations
  followed by six declarations, at array 0; ten comments at array 0; a rule with one
  declaration at array 0, and a comment beside them; two declarations at array 0, and
  two more beside them.
\<close>

definition empty_heap :: heap where
  "empty_heap = \<lparr>objs = (\<lambda>r. CommentObj [] []), arrays = (\<lambda>a. [])\<rparr>"

definition ten_nodes :: heap where
  "ten_nodes =
     \<lparr>objs = (objs empty_heap)
        (0 := RuleObj ''.a'' 1 [],
         1 := DeclarationObj ''a'' (Some ''1'') False [],
         2 := DeclarationObj ''b'' (Some ''2'') False [],
         3 := DeclarationObj ''c'' (Some ''3'') False [],
         4 := DeclarationObj ''d'' (Some ''4'') False [],
         5 := DeclarationObj ''e'' (Some ''5'') False [],
         6 := DeclarationObj ''f'' (Some ''6'') False [],
         7 := DeclarationObj ''g'' (Some ''7'') False [],
         8 := DeclarationObj ''h'' (Some ''8'') False [],
         9 := DeclarationObj ''i'' (Some ''9'') False []),
      arrays = (arrays empty_heap)(0 := [0, 4, 5, 6, 7, 8, 9], 1 := [1, 2, 3])\<rparr>"

definition ten_nodes_forest :: "rtree list" where
  "ten_nodes_forest =
     [RNode 0 [RNode 1 [], RNode 2 [], RNode 3 []],
      RNode 4 [], RNode 5 [], RNode 6 [], RNode 7 [], RNode 8 [], RNode 9 []]"

definition ten_comments :: heap where
  "ten_comments =
     \<lparr>objs = (\<lambda>r. CommentObj ''x'' []), arrays = (arrays empty_heap)(0 := [0, 1, 2, 3, 4, 5, 6, 7, 8, 9])\<rparr>"

definition rule_with_child :: heap where
  "rule_with_child =
     \<lparr>objs = (objs empty_heap)
        (0 := RuleObj ''.a'' 1 [],
         1 := DeclarationObj ''p'' (Some ''1'') False [],
         2 := CommentObj ''x'' []),
      arrays = (arrays empty_heap)(0 := [0], 1 := [1])\<rparr>"

definition declarations :: heap where
  "declarations =
     \<lparr>objs = (objs empty_heap)
        (0 := DeclarationObj ''p'' (Some ''1'') False [],
         1 := DeclarationObj ''q'' (Some ''2'') False [],
         2 := DeclarationObj ''r'' (Some ''3'') False [],
         3 := DeclarationObj ''s'' (Some ''4'') False []),
      arrays = (arrays empty_heap)(0 := [0, 1])\<rparr>"

text \<open>
  A visitor that counts its calls and returns \<open>Stop\<close> on the third; one that only
  looks; one that empties the child array of every rule it is handed, in place, and
  calls no \<open>replaceWith\<close>; one that replaces the first declaration it is handed by
  two nodes and does nothing afterwards; one that replaces the first rule it is handed
  by one node and lets the walk continue; and one that, handed a given node, calls
  \<open>replaceWith\<close> twice.
\<close>

definition stop_on_third :: "nat visitor" where
  "stop_on_third k h node = (k + 1, [], if k + 1 = 3 then Some Stop else None)"

definition look :: "unit visitor" where
  "look u h node = (u, [], Some Continue)"

definition empty_children :: "unit visitor" where
  "empty_children u h node =
     (case node of
        None \<Rightarrow> (u, [], Some Continue)
      | Some n \<Rightarrow>
          (case objs h n of
             RuleObj sel kids ms \<Rightarrow>
               (u, [Edit (\<lambda>h'. h'\<lparr>arrays := (arrays h')(kids := [])\<rparr>)], Some Continue)
           | _ \<Rightarrow> (u, [], Some Continue)))"


definition replace_first_rule :: "nref \<Rightarrow> bool visitor" where
  "replace_first_rule new done h node =
     (case node of
        None \<Rightarrow> (done, [], None)
      | Some n \<Rightarrow>
          (case objs h n of
             RuleObj sel kids ms \<Rightarrow>
               if done then (done, [], None) else (True, [ReplaceWith (One new)], Some Continue)
           | _ \<Rightarrow> (done, [], None)))"

definition replace_twice :: "nref \<Rightarrow> nref \<Rightarrow> nref \<Rightarrow> unit visitor" where
  "replace_twice target n1 n2 u h node =
     (if node = Some target then (u, [ReplaceWith (One n1), ReplaceWith (One n2)], None)
      else (u, [], None))"


section \<open>Facts about the serializer\<close>

subsection \<open>Indentation, line counting and the cursor\<close>

lemma length_indent_of: "length (indent_of depth) = 2 * depth"
  by (induction depth) (simp_all add: indent_of_def)

lemma indent_of_0: "indent_of 0 = []"
  by (simp add: indent_of_def)

lemma count_indent_of: "count_list (indent_of depth) newline = 0"
  by (induction depth) (simp_all add: indent_of_def)

lemma length_split_str: "length (split_str sep s) = Suc (count_list s sep)"
  by (induction s) (auto split: list.splits)

lemma location_advance:
  "location (advance k st) = map_option (\<lambda>loc. loc\<lparr>line := line loc + k\<rparr>) (location st)"
  by (simp add: advance_def split: option.splits)

lemma seen_advance: "seenAtProperties (advance k st) = seenAtProperties st"
  by (simp add: advance_def split: option.splits)

lemma atRoots_advance: "atRoots (advance k st) = atRoots st"
  by (simp add: advance_def split: option.splits)

lemma location_mark_seen: "location (mark_seen depth sel st) = location st"
  by (simp add: mark_seen_def)

lemma atRoots_mark_seen: "atRoots (mark_seen depth sel st) = atRoots st"
  by (simp add: mark_seen_def)

lemma property_selector:
  assumes "prefix ''@property '' sel"
  shows "sel \<noteq> ''@at-root''" "sel \<noteq> ''@tailwind utilities''" "take 1 sel = ''@''"
  using assms by (auto simp: prefix_def)

lemma forest_names_append:
  "forest_names_on_one_line (xs @ ys) = (forest_names_on_one_line xs \<and> forest_names_on_one_line ys)"
  by (induction xs) simp_all

subsection \<open>The branches of stringify\<close>

lemma stringify_at_root:
  "stringify depth st (Rule ''@at-root'' ns ms)
     = ('''', st\<lparr>atRoots := atRoots st @ ns\<rparr>, Rule ''@at-root'' ns ms)"
  by simp

lemma stringify_utilities_proj:
  "stringify depth st (Rule ''@tailwind utilities'' ns ms)
     = (fst (stringifyAll depth st ns), fst (snd (stringifyAll depth st ns)),
        Rule ''@tailwind utilities'' (snd (snd (stringifyAll depth st ns))) ms)"
  by (simp split: prod.splits)

lemma stringify_empty_at_rule:
  assumes "sel \<noteq> ''@at-root''" "sel \<noteq> ''@tailwind utilities''" "take 1 sel = ''@''"
  shows "stringify depth st (Rule sel [] ms)
           = (indent_of depth @ sel @ '';'' @ [newline], advance 1 st,
              Rule sel [] (push_mapping st (indent_of depth) ms))"
  using assms by (simp add: Let_def)

lemma stringify_duplicate:
  assumes "prefix ''@property '' sel" "ns \<noteq> []" "sel \<in> seenAtProperties st"
  shows "stringify 0 st (Rule sel ns ms) = ('''', st, Rule sel ns ms)"
  using assms property_selector [OF assms(1)] by (simp add: Let_def)

lemma stringify_block:
  assumes "sel \<noteq> ''@at-root''" "sel \<noteq> ''@tailwind utilities''"
    and "\<not> (take 1 sel = ''@'' \<and> ns = [])"
    and "\<not> (prefix ''@property '' sel \<and> depth = 0 \<and> sel \<in> seenAtProperties st)"
    and "stringifyAll (Suc depth) (advance 1 (mark_seen depth sel st)) ns = (body, st3, ns')"
  shows "stringify depth st (Rule sel ns ms)
           = (indent_of depth @ sel @ '' {'' @ [newline] @ body @ indent_of depth @ ''}'' @ [newline],
              advance 1 st3, Rule sel ns' (push_mapping st (indent_of depth) ms))"
proof (cases "prefix ''@property '' sel \<and> depth = 0")
  case True
  then have "mark_seen depth sel st = st\<lparr>seenAtProperties := insert sel (seenAtProperties st)\<rparr>"
    by (simp add: mark_seen_def)
  with True assms property_selector(3) [of sel] show ?thesis
    by (simp add: Let_def push_mapping_def)
next
  case False
  then have "mark_seen depth sel st = st"
    by (auto simp: mark_seen_def)
  with False assms show ?thesis
    by (auto simp: Let_def)
qed

lemma stringify_block_proj:
  assumes "sel \<noteq> ''@at-root''" "sel \<noteq> ''@tailwind utilities''"
    and "\<not> (take 1 sel = ''@'' \<and> ns = [])"
    and "\<not> (prefix ''@property '' sel \<and> depth = 0 \<and> sel \<in> seenAtProperties st)"
  shows "stringify depth st (Rule sel ns ms)
           = (indent_of depth @ sel @ '' {'' @ [newline]
                @ fst (stringifyAll (Suc depth) (advance 1 (mark_seen depth sel st)) ns)
                @ indent_of depth @ ''}'' @ [newline],
              advance 1 (fst (snd (stringifyAll (Suc depth) (advance 1 (mark_seen depth sel st)) ns))),
              Rule sel (snd (snd (stringifyAll (Suc depth) (advance 1 (mark_seen depth sel st)) ns)))
                (push_mapping st (indent_of depth) ms))"
  by (rule stringify_block [OF assms]) simp

lemma stringify_Comment:
  "stringify depth st (Comment v ms)
     = (indent_of depth @ ''/*'' @ v @ ''*/'' @ [newline],
        advance (Suc (count_list v newline)) st,
        Comment v (push_mapping st (indent_of depth) ms))"
  by (simp add: Let_def length_split_str)

lemma stringify_Declaration:
  "stringify depth st (Declaration p v imp ms) =
     (if p = ''--tw-sort'' \<or> v = None then ('''', st, Declaration p v imp ms)
      else (indent_of depth @ p @ '': '' @ the v @ (if imp then ''!important'' else '''')
              @ '';'' @ [newline],
            advance (Suc (count_list (the v) newline)) st,
            Declaration p v imp (push_mapping st (indent_of depth) ms)))"
  by (cases v) (simp_all add: length_split_str Let_def)

lemma rule_branches [case_names at_root utilities empty duplicate block]:
  assumes "sel = ''@at-root'' \<Longrightarrow> P"
    and "sel = ''@tailwind utilities'' \<Longrightarrow> P"
    and "\<lbrakk>sel \<noteq> ''@at-root''; sel \<noteq> ''@tailwind utilities''; take 1 sel = ''@''; ns = []\<rbrakk> \<Longrightarrow> P"
    and "\<lbrakk>prefix ''@property '' sel; ns \<noteq> []; depth = 0; sel \<in> seenAtProperties st\<rbrakk> \<Longrightarrow> P"
    and "\<lbrakk>sel \<noteq> ''@at-root''; sel \<noteq> ''@tailwind utilities''; \<not> (take 1 sel = ''@'' \<and> ns = []);
          \<not> (prefix ''@property '' sel \<and> depth = 0 \<and> sel \<in> seenAtProperties st)\<rbrakk> \<Longrightarrow> P"
  shows P
  using assms property_selector [of sel] by blast

lemma mark_seen_alt:
  "(if take 1 sel = ''@'' \<and> prefix ''@property '' sel \<and> depth = 0
    then st\<lparr>seenAtProperties := insert sel (seenAtProperties st)\<rparr> else st)
   = mark_seen depth sel st"
  using property_selector(3) [of sel] by (auto simp: mark_seen_def)

lemma stringifyAll_Cons_proj:
  "stringifyAll depth st (child # rest)
     = (fst (stringify depth st child) @ fst (stringifyAll depth (fst (snd (stringify depth st child))) rest),
        fst (snd (stringifyAll depth (fst (snd (stringify depth st child))) rest)),
        snd (snd (stringify depth st child))
          # snd (snd (stringifyAll depth (fst (snd (stringify depth st child))) rest)))"
  by (simp split: prod.splits)

lemma stringifyAll_append:
  assumes "stringifyAll depth st xs = (css1, st1, xs')"
    and "stringifyAll depth st1 ys = (css2, st2, ys')"
  shows "stringifyAll depth st (xs @ ys) = (css1 @ css2, st2, xs' @ ys')"
  using assms
proof (induction xs arbitrary: st css1 xs')
  case Nil
  then show ?case by simp
next
  case (Cons x xs)
  obtain c sx x' where x: "stringify depth st x = (c, sx, x')"
    by (metis prod_cases3)
  obtain cr sr xr where r: "stringifyAll depth sx xs = (cr, sr, xr)"
    by (metis prod_cases3)
  from Cons.prems(1) x r have e: "css1 = c @ cr" "st1 = sr" "xs' = x' # xr" by simp_all
  have "stringifyAll depth sx (xs @ ys) = (cr @ css2, st2, xr @ ys')"
    using Cons.IH [of sx cr xr] r Cons.prems(2) e by simp
  with x e show ?case by simp
qed

lemma stringifyAll_snoc_proj:
  "stringifyAll depth st (xs @ [n])
     = (fst (stringifyAll depth st xs) @ fst (stringify depth (fst (snd (stringifyAll depth st xs))) n),
        fst (snd (stringify depth (fst (snd (stringifyAll depth st xs))) n)),
        snd (snd (stringifyAll depth st xs))
          @ [snd (snd (stringify depth (fst (snd (stringifyAll depth st xs))) n))])"
proof -
  let ?a = "stringifyAll depth st xs"
  let ?b = "stringify depth (fst (snd ?a)) n"
  have "stringifyAll depth (fst (snd ?a)) [n] = (fst ?b, fst (snd ?b), [snd (snd ?b)])"
    by (simp split: prod.splits)
  from stringifyAll_append [OF _ this, of st xs "fst ?a" "snd (snd ?a)"]
  show ?thesis by simp
qed

lemma render_induct [case_names at_root utilities empty duplicate block Comment Declaration Nil Cons]:
  assumes at_root: "\<And>depth st ns ms. P depth st (Rule ''@at-root'' ns ms)"
    and utilities: "\<And>depth st ns ms. Q depth st ns \<Longrightarrow> P depth st (Rule ''@tailwind utilities'' ns ms)"
    and empty: "\<And>depth st sel ms. \<lbrakk>sel \<noteq> ''@at-root''; sel \<noteq> ''@tailwind utilities'';
           take 1 sel = ''@''\<rbrakk> \<Longrightarrow> P depth st (Rule sel [] ms)"
    and duplicate: "\<And>st sel ns ms. \<lbrakk>prefix ''@property '' sel; ns \<noteq> [];
           sel \<in> seenAtProperties st\<rbrakk> \<Longrightarrow> P 0 st (Rule sel ns ms)"
    and block: "\<And>depth st sel ns ms. \<lbrakk>sel \<noteq> ''@at-root''; sel \<noteq> ''@tailwind utilities'';
           \<not> (take 1 sel = ''@'' \<and> ns = []);
           \<not> (prefix ''@property '' sel \<and> depth = 0 \<and> sel \<in> seenAtProperties st);
           Q (Suc depth) (advance 1 (mark_seen depth sel st)) ns\<rbrakk> \<Longrightarrow> P depth st (Rule sel ns ms)"
    and Comment: "\<And>depth st v ms. P depth st (Comment v ms)"
    and Declaration: "\<And>depth st p v imp ms. P depth st (Declaration p v imp ms)"
    and Nil: "\<And>depth st. Q depth st []"
    and Cons: "\<And>depth st child rest. \<lbrakk>P depth st child;
           \<And>css st1 child'. stringify depth st child = (css, st1, child') \<Longrightarrow> Q depth st1 rest\<rbrakk>
           \<Longrightarrow> Q depth st (child # rest)"
  shows "P depth st n" and "Q depth st ns"
proof (induction depth st n and depth st ns rule: stringify_stringifyAll.induct)
  case (1 depth st sel ns ms)
  show ?case
  proof (cases rule: rule_branches [where sel = sel and ns = ns and depth = depth and st = st])
    case at_root
    then show ?thesis using assms(1) by simp
  next
    case utilities
    then show ?thesis using assms(2) "1.IH"(1) by simp
  next
    case empty
    then show ?thesis using assms(3) by simp
  next
    case duplicate
    then show ?thesis using assms(4) by simp
  next
    case block
    from block(3) have c3: "\<not> (take 1 sel = ''@'' \<and> length ns = 0)" by simp
    from block(4) have c4: "\<not> (take 1 sel = ''@'' \<and> prefix ''@property '' sel \<and> depth = 0
        \<and> sel \<in> seenAtProperties st)" by simp
    have "Q (Suc depth) (advance 1 (mark_seen depth sel st)) ns"
      using "1.IH"(2) [OF refl block(1) block(2) c3 c4 refl refl refl]
      by (simp only: mark_seen_alt Suc_eq_plus1)
    with block show ?thesis using assms(5) by blast
  qed
next
  case (2 depth st v ms)
  show ?case by (rule Comment)
next
  case (3 depth st p v imp ms)
  show ?case by (rule Declaration)
next
  case (4 depth st)
  show ?case by (rule Nil)
next
  case (5 depth st child rest)
  show ?case
  proof (rule Cons)
    show "P depth st child" by (rule "5.IH"(1))
  next
    fix css st1 child'
    assume "stringify depth st child = (css, st1, child')"
    then show "Q depth st1 rest"
      using "5.IH"(2) [of css "(st1, child')" st1 child'] by simp
  qed
qed

subsection \<open>What rendering keeps and what it changes\<close>

lemma untracked_unchanged:
  "location st = None \<Longrightarrow>
     snd (snd (stringify depth st n)) = n \<and> location (fst (snd (stringify depth st n))) = None"
  "location st = None \<Longrightarrow>
     snd (snd (stringifyAll depth st ns)) = ns
     \<and> location (fst (snd (stringifyAll depth st ns))) = None"
proof (induction depth st n and depth st ns rule: render_induct)
  case (block depth st sel ns ms)
  then show ?case
    by (simp add: stringify_block_proj location_advance location_mark_seen push_mapping_def
        del: stringify.simps)
next
  case (Cons depth st child rest)
  have "stringify depth st child = (fst (stringify depth st child),
      fst (snd (stringify depth st child)), snd (snd (stringify depth st child)))"
    by simp
  from Cons.IH(2) [OF this] Cons.IH(1) Cons.prems
  show ?case
    by (simp add: stringifyAll_Cons_proj del: stringifyAll.simps)
qed (simp_all add: stringify_empty_at_rule stringify_duplicate stringify_Declaration
      location_advance push_mapping_def
      stringify_at_root stringify_utilities_proj stringify_Comment
      del: stringify.simps)

lemma cursor_counts_lines:
  "names_on_one_line n \<Longrightarrow>
     location (fst (snd (stringify depth st n)))
       = map_option (\<lambda>loc. loc\<lparr>line := line loc + count_list (fst (stringify depth st n)) newline\<rparr>)
           (location st)"
  "forest_names_on_one_line ns \<Longrightarrow>
     location (fst (snd (stringifyAll depth st ns)))
       = map_option (\<lambda>loc. loc\<lparr>line := line loc + count_list (fst (stringifyAll depth st ns)) newline\<rparr>)
           (location st)"
proof (induction depth st n and depth st ns rule: render_induct)
  case (at_root depth st ns ms)
  show ?case by (simp add: option.map_ident)
next
  case (utilities depth st ns ms)
  then show ?case by (simp add: stringify_utilities_proj del: stringify.simps)
next
  case (empty depth st sel ms)
  then show ?case
    by (simp add: stringify_empty_at_rule location_advance count_indent_of del: stringify.simps)
next
  case (duplicate st sel ns ms)
  then show ?case
    by (simp add: stringify_duplicate option.map_ident del: stringify.simps)
next
  case (block depth st sel ns ms)
  obtain body st3 ns1 where
    body: "stringifyAll (Suc depth) (advance 1 (mark_seen depth sel st)) ns = (body, st3, ns1)"
    by (metis prod_cases3)
  from block.prems have sel: "count_list sel newline = 0" and ns: "forest_names_on_one_line ns"
    by simp_all
  from block.IH [OF ns] body
  have "location st3 = map_option (\<lambda>loc. loc\<lparr>line := line loc + count_list body newline\<rparr>)
        (location (advance 1 (mark_seen depth sel st)))"
    by simp
  with sel show ?case
    by (simp add: stringify_block [OF block.hyps(1-4) body] location_advance location_mark_seen
        count_indent_of option.map_comp o_def add.assoc del: stringify.simps)
next
  case (Comment depth st v ms)
  show ?case
    by (simp add: Let_def location_advance count_indent_of length_split_str)
next
  case (Declaration depth st p v imp ms)
  then show ?case
    by (simp add: stringify_Declaration location_advance count_indent_of option.map_ident
        del: stringify.simps)
next
  case (Nil depth st)
  show ?case by (simp add: option.map_ident)
next
  case (Cons depth st child rest)
  obtain c1 st1 child' where c: "stringify depth st child = (c1, st1, child')"
    by (metis prod_cases3)
  obtain c2 st2 rest' where r: "stringifyAll depth st1 rest = (c2, st2, rest')"
    by (metis prod_cases3)
  from Cons.prems have "names_on_one_line child" "forest_names_on_one_line rest" by simp_all
  with Cons.IH(1) Cons.IH(2) [OF c] c r show ?case
    by (simp add: option.map_comp o_def add.assoc)
qed

lemma seen_grows:
  "seenAtProperties st \<subseteq> seenAtProperties (fst (snd (stringify depth st n)))"
  "seenAtProperties st \<subseteq> seenAtProperties (fst (snd (stringifyAll depth st ns)))"
proof (induction depth st n and depth st ns rule: render_induct)
  case (block depth st sel ns ms)
  obtain body st3 ns1 where
    body: "stringifyAll (Suc depth) (advance 1 (mark_seen depth sel st)) ns = (body, st3, ns1)"
    by (metis prod_cases3)
  have "seenAtProperties st \<subseteq> seenAtProperties (mark_seen depth sel st)"
    by (auto simp: mark_seen_def)
  with block.IH body show ?case
    by (auto simp add: stringify_block [OF block.hyps(1-4) body] seen_advance simp del: stringify.simps)
next
  case (Cons depth st child rest)
  obtain c1 st1 child' where c: "stringify depth st child = (c1, st1, child')"
    by (metis prod_cases3)
  obtain c2 st2 rest' where r: "stringifyAll depth st1 rest = (c2, st2, rest')"
    by (metis prod_cases3)
  from Cons.IH(1) Cons.IH(2) [OF c] c r show ?case by auto
qed (simp_all add: stringify_empty_at_rule stringify_duplicate stringify_Declaration seen_advance
      stringify_at_root stringify_utilities_proj stringify_Comment Let_def del: stringify.simps)


lemma atRoots_names:
  "names_on_one_line n \<Longrightarrow> forest_names_on_one_line (atRoots st) \<Longrightarrow>
     forest_names_on_one_line (atRoots (fst (snd (stringify depth st n))))"
  "forest_names_on_one_line ns \<Longrightarrow> forest_names_on_one_line (atRoots st) \<Longrightarrow>
     forest_names_on_one_line (atRoots (fst (snd (stringifyAll depth st ns))))"
proof (induction depth st n and depth st ns rule: render_induct)
  case (block depth st sel ns ms)
  then show ?case
    by (simp add: stringify_block_proj atRoots_advance atRoots_mark_seen del: stringify.simps)
next
  case (Cons depth st child rest)
  from Cons.IH(2) [of "fst (stringify depth st child)" "fst (snd (stringify depth st child))"
      "snd (snd (stringify depth st child))"] Cons.IH(1) Cons.prems
  show ?case
    by (simp add: stringifyAll_Cons_proj del: stringifyAll.simps)
qed (simp_all add: stringify_empty_at_rule stringify_duplicate stringify_Declaration atRoots_advance
      stringify_at_root stringify_utilities_proj stringify_Comment forest_names_append
      del: stringify.simps)

lemma mappings_appended:
  "mappings (snd (snd (stringify depth st n)))
     = mappings n @ (if emitted depth st n
                     then (case location st of None \<Rightarrow> []
                           | Some loc \<Rightarrow> [destination_at (line loc) (2 * depth)])
                     else [])"
proof (cases n)
  case (Rule sel ns ms)
  show ?thesis
  proof (cases rule: rule_branches [where sel = sel and ns = ns and depth = depth and st = st])
    case block
    then show ?thesis
      using property_selector(3) [of sel]
      by (auto simp add: Rule stringify_block_proj push_mapping_def length_indent_of
          simp del: stringify.simps split: option.splits)
  qed (auto simp add: Rule stringify_empty_at_rule stringify_duplicate stringify_at_root
        stringify_utilities_proj push_mapping_def length_indent_of
        simp del: stringify.simps split: option.splits)
next
  case (Declaration p v imp ms)
  then show ?thesis
    by (auto simp add: stringify_Declaration push_mapping_def length_indent_of
        simp del: stringify.simps split: option.splits)
next
  case (Comment v ms)
  then show ?thesis
    by (auto simp add: stringify_Comment push_mapping_def length_indent_of
        simp del: stringify.simps split: option.splits)
qed

lemma emitted_starts_with_indent:
  "emitted depth st n \<Longrightarrow> prefix (indent_of depth) (fst (stringify depth st n))"
proof (cases n)
  case (Rule sel ns ms)
  assume e: "emitted depth st n"
  show ?thesis
  proof (cases rule: rule_branches [where sel = sel and ns = ns and depth = depth and st = st])
    case block
    then show ?thesis
      by (simp add: Rule stringify_block_proj del: stringify.simps)
  qed (use e in \<open>auto simp add: Rule stringify_empty_at_rule simp del: stringify.simps\<close>)
next
  case (Declaration p v imp ms)
  assume "emitted depth st n"
  with Declaration show ?thesis
    by (auto simp add: stringify_Declaration simp del: stringify.simps)
next
  case (Comment v ms)
  then show ?thesis
    by (simp add: stringify_Comment del: stringify.simps)
qed

lemma seen_after_property_rule:
  assumes "prefix ''@property '' sel" and "ns \<noteq> []"
  shows "sel \<in> seenAtProperties (fst (snd (stringify 0 st (Rule sel ns ms))))"
proof (cases "sel \<in> seenAtProperties st")
  case True
  with assms show ?thesis
    by (simp add: stringify_duplicate del: stringify.simps)
next
  case False
  have "sel \<in> seenAtProperties (advance 1 (mark_seen 0 sel st))"
    using assms(1) by (simp add: seen_advance mark_seen_def)
  then have "sel \<in> seenAtProperties (fst (snd (stringifyAll (Suc 0) (advance 1 (mark_seen 0 sel st)) ns)))"
    using seen_grows(2) by blast
  with False assms property_selector [OF assms(1)] show ?thesis
    by (simp add: stringify_block_proj seen_advance del: stringify.simps)
qed

lemma seen_after_forest:
  assumes "prefix ''@property '' sel" and "ns \<noteq> []" and "Rule sel ns ms \<in> set xs"
  shows "sel \<in> seenAtProperties (fst (snd (stringifyAll 0 st xs)))"
  using assms(3)
proof (induction xs arbitrary: st)
  case Nil
  then show ?case by simp
next
  case (Cons x xs)
  show ?case
  proof (cases "x = Rule sel ns ms")
    case True
    have "sel \<in> seenAtProperties (fst (snd (stringify 0 st x)))"
      unfolding True by (rule seen_after_property_rule [OF assms(1,2)])
    then show ?thesis
      using seen_grows(2) [of "fst (snd (stringify 0 st x))" 0 xs]
      by (auto simp add: stringifyAll_Cons_proj simp del: stringifyAll.simps)
  next
    case False
    with Cons.prems have "Rule sel ns ms \<in> set xs" by simp
    from Cons.IH [OF this] show ?thesis
      by (simp add: stringifyAll_Cons_proj del: stringifyAll.simps)
  qed
qed

subsection \<open>Putting the hoisted nodes back\<close>

lemma put_back_block:
  assumes "sel \<noteq> ''@at-root''" "sel \<noteq> ''@tailwind utilities''"
    and "\<not> (take 1 sel = ''@'' \<and> ns = [])"
    and "\<not> (prefix ''@property '' sel \<and> depth = 0 \<and> sel \<in> seenAtProperties st)"
  shows "put_back depth (seenAtProperties st) hoisted (Rule sel ns ms)
           = (Rule sel (fst (put_back_all (Suc depth) (seenAtProperties (mark_seen depth sel st)) hoisted ns)) ms,
              snd (put_back_all (Suc depth) (seenAtProperties (mark_seen depth sel st)) hoisted ns))"
  using assms property_selector(3) [of sel]
  by (auto simp add: mark_seen_def split: prod.splits)

lemma put_back_all_Cons_proj:
  "put_back_all depth seen hoisted (child # rest)
     = (fst (put_back depth seen hoisted child)
          # fst (put_back_all depth (fst (snd (put_back depth seen hoisted child)))
                  (snd (snd (put_back depth seen hoisted child))) rest),
        snd (put_back_all depth (fst (snd (put_back depth seen hoisted child)))
                  (snd (snd (put_back depth seen hoisted child))) rest))"
  by (simp split: prod.splits)

lemma put_back_restores:
  "\<exists>H. atRoots (fst (snd (stringify depth st n))) = atRoots st @ H
       \<and> (\<forall>rest. put_back depth (seenAtProperties st) (H @ rest) n
             = (n, seenAtProperties (fst (snd (stringify depth st n))), rest))"
  "\<exists>H. atRoots (fst (snd (stringifyAll depth st ns))) = atRoots st @ H
       \<and> (\<forall>rest. put_back_all depth (seenAtProperties st) (H @ rest) ns
             = (ns, seenAtProperties (fst (snd (stringifyAll depth st ns))), rest))"
proof (induction depth st n and depth st ns rule: render_induct)
  case (at_root depth st ns ms)
  show ?case by (rule exI [of _ ns]) simp
next
  case (utilities depth st ns ms)
  then obtain H where "atRoots (fst (snd (stringifyAll depth st ns))) = atRoots st @ H"
    and "\<And>rest. put_back_all depth (seenAtProperties st) (H @ rest) ns
             = (ns, seenAtProperties (fst (snd (stringifyAll depth st ns))), rest)"
    by blast
  then show ?case
    by (intro exI [of _ H]) (simp add: stringify_utilities_proj del: stringify.simps)
next
  case (empty depth st sel ms)
  then show ?case
    by (intro exI [of _ "[]"])
      (simp add: stringify_empty_at_rule atRoots_advance seen_advance del: stringify.simps)
next
  case (duplicate st sel ns ms)
  then show ?case
    using property_selector [of sel]
    by (intro exI [of _ "[]"]) (simp add: stringify_duplicate del: stringify.simps)
next
  case (block depth st sel ns ms)
  let ?st = "advance 1 (mark_seen depth sel st)"
  from block.IH obtain H where a: "atRoots (fst (snd (stringifyAll (Suc depth) ?st ns))) = atRoots ?st @ H"
    and p: "\<And>rest. put_back_all (Suc depth) (seenAtProperties ?st) (H @ rest) ns
             = (ns, seenAtProperties (fst (snd (stringifyAll (Suc depth) ?st ns))), rest)"
    by blast
  show ?case
    using a p
    by (intro exI [of _ H])
      (simp add: stringify_block_proj [OF block.hyps] put_back_block [OF block.hyps]
        atRoots_advance seen_advance atRoots_mark_seen del: stringify.simps put_back.simps)
next
  case (Comment depth st v ms)
  show ?case
    by (intro exI [of _ "[]"]) (simp add: stringify_Comment atRoots_advance seen_advance del: stringify.simps)
next
  case (Declaration depth st p v imp ms)
  show ?case
    by (intro exI [of _ "[]"])
      (simp add: stringify_Declaration atRoots_advance seen_advance del: stringify.simps)
next
  case (Nil depth st)
  show ?case by simp
next
  case (Cons depth st child rest)
  let ?c = "stringify depth st child"
  have e: "?c = (fst ?c, fst (snd ?c), snd (snd ?c))" by simp
  from Cons.IH(1) obtain H1 where a1: "atRoots (fst (snd ?c)) = atRoots st @ H1"
    and p1: "\<And>r. put_back depth (seenAtProperties st) (H1 @ r) child
             = (child, seenAtProperties (fst (snd ?c)), r)"
    by blast
  from Cons.IH(2) [OF e] obtain H2 where
    a2: "atRoots (fst (snd (stringifyAll depth (fst (snd ?c)) rest))) = atRoots (fst (snd ?c)) @ H2"
    and p2: "\<And>r. put_back_all depth (seenAtProperties (fst (snd ?c))) (H2 @ r) rest
             = (rest, seenAtProperties (fst (snd (stringifyAll depth (fst (snd ?c)) rest))), r)"
    by blast
  show ?case
    using a1 a2 p1 p2
    by (intro exI [of _ "H1 @ H2"])
      (simp add: stringifyAll_Cons_proj put_back_all_Cons_proj
        del: stringifyAll.simps put_back_all.simps)
qed

subsection \<open>The hoist buffer does not influence the text\<close>







subsection \<open>toCss as two passes\<close>

lemma toCss_run_proj:
  "toCss_run ast track =
     (let st0 = \<lparr>atRoots = [], seenAtProperties = {},
                 location = (if track then Some \<lparr>line = 1, column = 0\<rparr> else None)\<rparr>;
          main = stringifyAll 0 st0 ast;
          flush = stringifyAll 0 (fst (snd main)) (atRoots (fst (snd main)))
      in (fst main @ fst flush, fst (put_back_all 0 {} (snd (snd flush)) (snd (snd main))),
          snd (snd flush), fst (snd flush)))"
  by (simp add: toCss_run_def Let_def split: prod.splits)













section \<open>Facts about the walker\<close>

lemma run_steps_harmless:
  "list_all harmless steps \<Longrightarrow>
     snd (run_steps a steps (h, i)) = i
     \<and> arrays (fst (run_steps a steps (h, i))) = arrays h
     \<and> (\<forall>r. kids_of (objs (fst (run_steps a steps (h, i))) r) = kids_of (objs h r))"
proof (induction steps arbitrary: h)
  case Nil
  show ?case by simp
next
  case (Cons x rest)
  show ?case
  proof (cases x)
    case (Edit f)
    with Cons.prems have k: "keeps_forest f" and r: "list_all harmless rest" by simp_all
    from k have "arrays (f h) = arrays h" "\<And>r. kids_of (objs (f h) r) = kids_of (objs h r)"
      by (simp_all add: keeps_forest_def)
    with Cons.IH [OF r, of "f h"] Edit show ?thesis by simp
  next
    case (ReplaceWith r)
    with Cons.prems show ?thesis by simp
  qed
qed

lemma shape_same:
  assumes "arrays h' = arrays h" and "\<And>r. kids_of (objs h' r) = kids_of (objs h r)"
  shows "shape h' t = shape h t"
proof (induction t)
  case (RNode r ts)
  then show ?case using assms by (auto split: option.splits)
qed

lemma kids_of_Some: "kids_of ob = Some k \<Longrightarrow> \<exists>sel ms. ob = RuleObj sel k ms"
  by (cases ob) simp_all

lemma preorder_length:
  "length (preorder t) = node_count t"
  "length (preorder_forest ts) = forest_count ts"
  by (induction t and ts rule: preorder_preorder_forest.induct) simp_all

lemma onlooker_walk_from:
  assumes "onlooker_on S visit"
  shows "arrays h a = pre @ map root ts \<Longrightarrow> (\<forall>t\<in>set ts. shape h t) \<Longrightarrow> forest_count ts < fuel \<Longrightarrow>
     s \<in> S \<Longrightarrow> \<exists>s' h'. s' \<in> S \<and> walk_from fuel (logged visit) (s, log) h a (int (length pre))
                = Some (Inr ((s', log @ map Some (preorder_forest ts)), h'))
            \<and> arrays h' = arrays h \<and> (\<forall>r. kids_of (objs h' r) = kids_of (objs h r))"
proof (induction fuel arbitrary: h a pre ts s log)
  case 0
  then show ?case by simp
next
  case (Suc fuel)
  show ?case
  proof (cases ts)
    case Nil
    with Suc.prems show ?thesis by simp
  next
    case (Cons t rest)
    obtain r us where t: "t = RNode r us" by (cases t)
    obtain s1 steps st where v: "visit s h (Some r) = (s1, steps, st)"
      by (cases "visit s h (Some r)")
    from assms Suc.prems(4) have o: "list_all harmless steps" "st = None \<or> st = Some Continue"
      and s1: "s1 \<in> S"
      using v unfolding onlooker_on_def by (metis fst_conv snd_conv)+
    obtain h1 where h1: "run_steps a steps (h, int (length pre)) = (h1, int (length pre))"
      and a1: "arrays h1 = arrays h" and k1: "\<And>r. kids_of (objs h1 r) = kids_of (objs h r)"
      using run_steps_harmless [OF o(1), of a h "int (length pre)"]
      by (cases "run_steps a steps (h, int (length pre))") auto
    have node: "arrays h a ! length pre = r" "int (length pre) < int (length (arrays h a))"
      using Suc.prems(1) Cons t by simp_all
    have arr: "arrays h a = (pre @ [r]) @ map root rest"
      using Suc.prems(1) Cons t by simp
    have sh_rest: "\<forall>t\<in>set rest. shape h t" and sh_t: "shape h (RNode r us)"
      using Suc.prems(2) Cons t by simp_all
    have cnt: "forest_count rest < fuel" "forest_count us < fuel"
      using Suc.prems(3) Cons t by simp_all
    show ?thesis
    proof (cases "kids_of (objs h r)")
      case None
      with sh_t have us: "us = []" by simp
      from None k1 have "kids_of (objs h1 r) = None" by simp
      then have nr: "\<And>sel k ms. objs h1 r \<noteq> RuleObj sel k ms" by auto
      have sh1: "\<forall>t\<in>set rest. shape h1 t"
        using sh_rest shape_same [OF a1 k1] by simp
      from arr a1 have arr1: "arrays h1 a = (pre @ [r]) @ map root rest" by simp
      from Suc.IH [OF arr1 sh1 cnt(1) s1, of "log @ [Some r]"]
      obtain s' h' where s': "s' \<in> S" and w: "walk_from fuel (logged visit) (s1, log @ [Some r]) h1 a (int (length (pre @ [r])))
            = Some (Inr ((s', (log @ [Some r]) @ map Some (preorder_forest rest)), h'))"
        and a': "arrays h' = arrays h1" and k': "\<And>r. kids_of (objs h' r) = kids_of (objs h1 r)"
        by blast
      have "walk_from (Suc fuel) (logged visit) (s, log) h a (int (length pre))
          = walk_from fuel (logged visit) (s1, log @ [Some r]) h1 a (int (length pre) + 1)"
        using node v o(2) h1 nr
        by (cases "objs h1 r") (auto simp add: logged_def split: option.splits)
      with s' w a' k' a1 k1 Cons t us show ?thesis
        by (simp add: add.commute)
    next
      case (Some k)
      with sh_t have us: "arrays h k = map root us" "\<forall>t\<in>set us. shape h t" by simp_all
      from Some k1 have "kids_of (objs h1 r) = Some k" by simp
      then obtain sel ms where ob: "objs h1 r = RuleObj sel k ms"
        using kids_of_Some by blast
      have shu: "\<forall>t\<in>set us. shape h1 t"
        using us(2) shape_same [OF a1 k1] by simp
      from us(1) a1 have arru: "arrays h1 k = [] @ map root us" by simp
      from Suc.IH [OF arru shu cnt(2) s1, of "log @ [Some r]"]
      obtain s2 h2 where s2: "s2 \<in> S" and w2: "walk_from fuel (logged visit) (s1, log @ [Some r]) h1 k 0
            = Some (Inr ((s2, (log @ [Some r]) @ map Some (preorder_forest us)), h2))"
        and a2: "arrays h2 = arrays h1" and k2: "\<And>r. kids_of (objs h2 r) = kids_of (objs h1 r)"
        by auto
      from a1 a2 have a12: "arrays h2 = arrays h" by simp
      from k1 k2 have k12: "\<And>r. kids_of (objs h2 r) = kids_of (objs h r)" by simp
      have sh2: "\<forall>t\<in>set rest. shape h2 t"
        using sh_rest shape_same [OF a12 k12] by simp
      from arr a12 have arr2: "arrays h2 a = (pre @ [r]) @ map root rest" by simp
      from Suc.IH [OF arr2 sh2 cnt(1) s2, of "(log @ [Some r]) @ map Some (preorder_forest us)"]
      obtain s' h' where s': "s' \<in> S" and w: "walk_from fuel (logged visit)
              (s2, (log @ [Some r]) @ map Some (preorder_forest us)) h2 a (int (length (pre @ [r])))
            = Some (Inr ((s', ((log @ [Some r]) @ map Some (preorder_forest us))
                                @ map Some (preorder_forest rest)), h'))"
        and a': "arrays h' = arrays h2" and k': "\<And>r. kids_of (objs h' r) = kids_of (objs h2 r)"
        by blast
      have "walk_from (Suc fuel) (logged visit) (s, log) h a (int (length pre))
          = walk_from fuel (logged visit)
              (s2, (log @ [Some r]) @ map Some (preorder_forest us)) h2 a (int (length pre) + 1)"
        using node v o(2) h1 ob w2
        by (auto simp add: logged_def split: option.splits)
      with s' w a' k' a12 k12 Cons t show ?thesis
        by (simp add: add.commute)
    qed
  qed
qed

lemma walk_from_end:
  "\<not> i < int (length (arrays h a)) \<Longrightarrow> walk_from (Suc fuel) visit s h a i = Some (Inr (s, h))"
  by simp

lemma walk_from_visit:
  assumes "i < int (length (arrays h a))"
    and "visit s h (if 0 \<le> i then Some (arrays h a ! nat i) else None) = (s1, steps, st)"
    and "run_steps a steps (h, i) = (h1, i1)"
  shows "st = Some Stop \<Longrightarrow> walk_from (Suc fuel) visit s h a i = Some (Inr (s1, h1))"
    and "st = Some Skip \<Longrightarrow> walk_from (Suc fuel) visit s h a i = walk_from fuel visit s1 h1 a (i1 + 1)"
    and "st = None \<or> st = Some Continue \<Longrightarrow> i < 0 \<Longrightarrow>
           walk_from (Suc fuel) visit s h a i = Some (Inl TypeError)"
    and "st = None \<or> st = Some Continue \<Longrightarrow> 0 \<le> i \<Longrightarrow>
           kids_of (objs h1 (arrays h a ! nat i)) = None \<Longrightarrow>
           walk_from (Suc fuel) visit s h a i = walk_from fuel visit s1 h1 a (i1 + 1)"
    and "st = None \<or> st = Some Continue \<Longrightarrow> 0 \<le> i \<Longrightarrow>
           kids_of (objs h1 (arrays h a ! nat i)) = Some k \<Longrightarrow>
           walk_from (Suc fuel) visit s h a i
             = (case walk_from fuel visit s1 h1 k 0 of
                  None \<Rightarrow> None
                | Some (Inl e) \<Rightarrow> Some (Inl e)
                | Some (Inr (s2, h2)) \<Rightarrow> walk_from fuel visit s2 h2 a (i1 + 1))"
proof -
  show "st = Some Stop \<Longrightarrow> walk_from (Suc fuel) visit s h a i = Some (Inr (s1, h1))"
    using assms by (simp add: Let_def)
  show "st = Some Skip \<Longrightarrow> walk_from (Suc fuel) visit s h a i = walk_from fuel visit s1 h1 a (i1 + 1)"
    using assms by (simp add: Let_def)
  show "st = None \<or> st = Some Continue \<Longrightarrow> i < 0 \<Longrightarrow>
           walk_from (Suc fuel) visit s h a i = Some (Inl TypeError)"
    using assms by (auto simp add: Let_def)
  show "st = None \<or> st = Some Continue \<Longrightarrow> 0 \<le> i \<Longrightarrow>
           kids_of (objs h1 (arrays h a ! nat i)) = None \<Longrightarrow>
           walk_from (Suc fuel) visit s h a i = walk_from fuel visit s1 h1 a (i1 + 1)"
    using assms by (cases "objs h1 (arrays h a ! nat i)") (auto simp add: Let_def)
  show "st = None \<or> st = Some Continue \<Longrightarrow> 0 \<le> i \<Longrightarrow>
           kids_of (objs h1 (arrays h a ! nat i)) = Some k \<Longrightarrow>
           walk_from (Suc fuel) visit s h a i
             = (case walk_from fuel visit s1 h1 k 0 of
                  None \<Rightarrow> None
                | Some (Inl e) \<Rightarrow> Some (Inl e)
                | Some (Inr (s2, h2)) \<Rightarrow> walk_from fuel visit s2 h2 a (i1 + 1))"
    using assms by (cases "objs h1 (arrays h a ! nat i)") (auto simp add: Let_def)
qed

lemma run_steps_index:
  "snd (run_steps a steps (h, i)) = i - int (replace_count steps)"
  by (induction a steps "(h, i)" arbitrary: h i rule: run_steps.induct) simp_all

lemma logged_visit:
  "visit s h node = (s1, steps, st) \<Longrightarrow> logged visit (s, log) h node = ((s1, log @ [node]), steps, st)"
  by (simp add: logged_def)


lemma forest_count_append:
  "forest_count (ts @ us) = forest_count ts + forest_count us"
  by (induction ts) simp_all


lemma forest_shape_same:
  assumes "arrays h' = arrays h" and "\<And>r. kids_of (objs h' r) = kids_of (objs h r)"
  shows "forest_shape h' a ts = forest_shape h a ts"
  using assms shape_same [OF assms] by (simp add: forest_shape_def list_all_iff)

section \<open>The walker: directives, replacement, order of visits\<close>

text \<open>
  Claim C1 (the code at the failing input).  The forest has 10 nodes, a rule with
  three declarations followed by six declarations, and the visitor returns \<open>Stop\<close>
  on its third visit, which is inside the rule.  \<open>return\<close> leaves the call of
  \<open>walk\<close> on the rule's children only; the outer loop goes on with the rule's
  siblings, and the visitor is called 9 times.  On a flat forest of 10 nodes the same
  visitor is called 3 times.
\<close>

theorem stop_leaves_inner_walk_only:
  "forest_shape ten_nodes 0 ten_nodes_forest
   \<and> forest_count ten_nodes_forest = 10
   \<and> walk 11 (logged stop_on_third) (0, []) ten_nodes 0
     = Some (Inr ((9, [Some 0, Some 1, Some 2, Some 4, Some 5, Some 6, Some 7, Some 8, Some 9]),
                  ten_nodes))
   \<and> arrays ten_comments 0 = [0, 1, 2, 3, 4, 5, 6, 7, 8, 9]
   \<and> walk 11 (logged stop_on_third) (0, []) ten_comments 0
     = Some (Inr ((3, [Some 0, Some 1, Some 2]), ten_comments))"
  by (simp add: walk_def ten_nodes_def ten_nodes_forest_def ten_comments_def empty_heap_def
      forest_shape_def stop_on_third_def logged_def eval_nat_numeral)

text \<open>
  Claim C5 (counterexample).  The forest is a rule with one declaration, 2 nodes.  The
  visitor returns \<open>Continue\<close> on every call and never calls \<open>replaceWith\<close>, but
  empties, in place, the child array of the rule it is handed.  The walk then goes
  into the emptied array, and the visitor is called once, not twice.
\<close>

theorem edited_children_counterexample:
  "forest_shape rule_with_child 0 [RNode 0 [RNode 1 []]]
   \<and> forest_count [RNode 0 [RNode 1 []]] = 2
   \<and> (\<forall>u h node. snd (snd (empty_children u h node)) = Some Continue
                  \<and> replace_count (fst (snd (empty_children u h node))) = 0)
   \<and> walk 3 (logged empty_children) ((), []) rule_with_child 0
     = Some (Inr (((), [Some 0]), rule_with_child\<lparr>arrays := (arrays rule_with_child)(1 := [])\<rparr>))"
proof -
  have "snd (snd (empty_children u h node)) = Some Continue
        \<and> replace_count (fst (snd (empty_children u h node))) = 0" for u h node
    by (simp add: empty_children_def split: option.splits obj.splits)
  moreover have "walk 3 (logged empty_children) ((), []) rule_with_child 0
     = Some (Inr (((), [Some 0]), rule_with_child\<lparr>arrays := (arrays rule_with_child)(1 := [])\<rparr>))"
    by (simp add: walk_def rule_with_child_def empty_heap_def empty_children_def logged_def
        eval_nat_numeral)
  moreover have "forest_shape rule_with_child 0 [RNode 0 [RNode 1 []]]"
    by (simp add: rule_with_child_def empty_heap_def forest_shape_def)
  ultimately show ?thesis by simp
qed

text \<open>
  Claim C5 (amended).  For a store that holds a forest of N nodes at the array walked,
  and a visitor that on every call returns \<open>Continue\<close> or nothing, never calls
  \<open>replaceWith\<close>, and makes no edit that changes an array or turns a rule into
  another kind of node, another kind into a rule, or gives a rule another child array:
  with more than N units of fuel the walk returns, the visitor has been called exactly
  N times, once for the node at each position, in depth-first pre-order (sequence
  order at each level, a rule before its children), and the store still holds the
  forest.
\<close>

theorem walk_visits_every_node_once:
  assumes "forest_shape h a ts" and "onlooker_on UNIV visit" and "forest_count ts < fuel"
  shows "(\<exists>s' h'. walk fuel (logged visit) (s, log) h a
                    = Some (Inr ((s', log @ map Some (preorder_forest ts)), h'))
                 \<and> forest_shape h' a ts)
       \<and> length (map Some (preorder_forest ts)) = forest_count ts
       \<and> preorder_forest (RNode r us # rest) = r # preorder_forest us @ preorder_forest rest"
proof -
  from assms(1) have arr: "arrays h a = [] @ map root ts" and sh: "\<forall>t\<in>set ts. shape h t"
    by (simp_all add: forest_shape_def list_all_iff)
  from onlooker_walk_from [OF assms(2) arr sh assms(3), of s log]
  obtain s' h' where w: "walk_from fuel (logged visit) (s, log) h a (int (length ([]::nref list)))
        = Some (Inr ((s', log @ map Some (preorder_forest ts)), h'))"
    and a': "arrays h' = arrays h" and k': "\<And>r. kids_of (objs h' r) = kids_of (objs h r)"
    by auto
  from forest_shape_same [OF a' k', of a ts] assms(1) have "forest_shape h' a ts" by simp
  with w show ?thesis
    by (auto simp add: walk_def preorder_length(2))
qed

theorem walk_visits_every_node_once_witness:
  "walk 11 (logged look) ((), []) ten_nodes 0
     = Some (Inr (((), [Some 0, Some 1, Some 2, Some 3, Some 4, Some 5, Some 6, Some 7, Some 8,
                        Some 9]), ten_nodes))
   \<and> forest_count ten_nodes_forest = 10"
proof -
  have f: "forest_shape ten_nodes 0 ten_nodes_forest"
    by (simp add: ten_nodes_def ten_nodes_forest_def empty_heap_def forest_shape_def)
  have o: "onlooker_on UNIV look"
    by (simp add: onlooker_on_def look_def)
  have c: "forest_count ten_nodes_forest < 11"
    by (simp add: ten_nodes_forest_def)
  from walk_visits_every_node_once [OF f o c, of "()" "[]"] show ?thesis
    by (simp add: walk_def ten_nodes_def ten_nodes_forest_def empty_heap_def look_def logged_def
        eval_nat_numeral)
qed




text \<open>
  Claim C3 (counterexample).  The visitor replaces the rule by a comment and lets the
  walk continue; the declaration, child of the rule that was removed during that
  visit, is handed to the visitor all the same, before the comment that took the
  rule's place.
\<close>

theorem removed_rule_children_counterexample:
  "arrays rule_with_child 0 = [0] \<and> objs rule_with_child 0 = RuleObj ''.a'' 1 []
   \<and> arrays rule_with_child 1 = [1]
   \<and> walk 5 (logged (replace_first_rule 2)) (False, []) rule_with_child 0
     = Some (Inr ((True, [Some 0, Some 1, Some 2]),
                  rule_with_child\<lparr>arrays := (arrays rule_with_child)(0 := [2])\<rparr>))"
  by (simp add: walk_def rule_with_child_def empty_heap_def replace_first_rule_def logged_def
      array_splice_def eval_nat_numeral)

text \<open>
  Claim C3 (amended).  At a position \<open>i\<close> below the length of the array the visitor
  is called with the node there, or with \<open>undefined\<close> when \<open>i\<close> is negative.  After
  the visit: on \<open>Stop\<close> this call of the walk ends; on \<open>Skip\<close> the loop goes on
  without going into any child array; on \<open>Continue\<close> (or no directive) the walk
  raises a \<open>TypeError\<close> when it had handed \<open>undefined\<close>, goes on without descent
  when the visited object is then not a rule, and when it is a rule goes into the child
  array that object then has, and into no other, and goes on from the store that walk
  leaves.  That holds also when the visitor removed the node with \<open>replaceWith\<close>
  during the visit: the removed node's children are walked, and then the loop resumes
  in the spliced array, so that (when the visitor is an onlooker from then on) the
  visits are the removed node's children, then the nodes of the array from the
  position of resumption.  The loop resumes at \<open>i + 1\<close> less the number of calls of
  \<open>replaceWith\<close> made during the visit: a visit without such a call is followed by
  position \<open>i + 1\<close>, and a position is visited again only after such a call.
\<close>

theorem descent_after_visit:
  assumes "i < int (length (arrays h a))"
    and "node = (if 0 \<le> i then Some (arrays h a ! nat i) else None)"
    and "visit s h node = (s1, steps, st)"
    and "run_steps a steps (h, i) = (h1, i1)"
  shows "i1 + 1 = i + 1 - int (replace_count steps)
       \<and> (replace_count steps = 0 \<longrightarrow> i1 + 1 = i + 1)
       \<and> (0 < replace_count steps \<longrightarrow> i1 + 1 \<le> i)
       \<and> (st = Some Stop \<longrightarrow> walk_from (Suc fuel) visit s h a i = Some (Inr (s1, h1)))
       \<and> (st = Some Skip \<longrightarrow>
            walk_from (Suc fuel) visit s h a i = walk_from fuel visit s1 h1 a (i1 + 1))
       \<and> ((st = None \<or> st = Some Continue) \<and> node = None \<longrightarrow>
            walk_from (Suc fuel) visit s h a i = Some (Inl TypeError))
       \<and> ((st = None \<or> st = Some Continue) \<and> node = Some n \<and> kids_of (objs h1 n) = None \<longrightarrow>
            walk_from (Suc fuel) visit s h a i = walk_from fuel visit s1 h1 a (i1 + 1))
       \<and> ((st = None \<or> st = Some Continue) \<and> node = Some n \<and> kids_of (objs h1 n) = Some k \<longrightarrow>
            walk_from (Suc fuel) visit s h a i
              = (case walk_from fuel visit s1 h1 k 0 of
                   None \<Rightarrow> None
                 | Some (Inl e) \<Rightarrow> Some (Inl e)
                 | Some (Inr (s2, h2)) \<Rightarrow> walk_from fuel visit s2 h2 a (i1 + 1)))
       \<and> ((st = None \<or> st = Some Continue) \<and> node = Some n \<and> kids_of (objs h1 n) = Some k
            \<and> onlooker_on S visit \<and> s1 \<in> S
            \<and> forest_shape h1 k us
            \<and> arrays h1 a = pre @ map root ts \<and> int (length pre) = i1 + 1
            \<and> list_all (shape h1) ts
            \<and> forest_count us + forest_count ts < fuel \<longrightarrow>
            (\<exists>s' h'. walk_from (Suc fuel) (logged visit) (s, log) h a i
                        = Some (Inr ((s', log @ [Some n] @ map Some (preorder_forest us)
                                           @ map Some (preorder_forest ts)), h'))))"
proof -
  have v: "visit s h (if 0 \<le> i then Some (arrays h a ! nat i) else None) = (s1, steps, st)"
    using assms(2,3) by simp
  have idx: "i1 = i - int (replace_count steps)"
    using run_steps_index [of a steps h i] assms(4) by simp
  note step = walk_from_visit [where visit = visit and s = s and fuel = fuel, OF assms(1) v assms(4)]
  have undef: "walk_from (Suc fuel) visit s h a i = Some (Inl TypeError)"
    if "(st = None \<or> st = Some Continue) \<and> node = None"
  proof -
    from that assms(2) have c: "st = None \<or> st = Some Continue" and i: "i < 0"
      by (auto split: if_splits)
    from step(3) [OF c i] show ?thesis .
  qed
  have leaf: "walk_from (Suc fuel) visit s h a i = walk_from fuel visit s1 h1 a (i1 + 1)"
    if "(st = None \<or> st = Some Continue) \<and> node = Some n \<and> kids_of (objs h1 n) = None"
  proof -
    from that assms(2) have c: "st = None \<or> st = Some Continue" and i: "0 \<le> i"
      and e: "kids_of (objs h1 (arrays h a ! nat i)) = None"
      by (auto split: if_splits)
    from step(4) [OF c i e] show ?thesis .
  qed
  have deep: "walk_from (Suc fuel) visit s h a i
              = (case walk_from fuel visit s1 h1 k 0 of
                   None \<Rightarrow> None
                 | Some (Inl e) \<Rightarrow> Some (Inl e)
                 | Some (Inr (s2, h2)) \<Rightarrow> walk_from fuel visit s2 h2 a (i1 + 1))"
    if "(st = None \<or> st = Some Continue) \<and> node = Some n \<and> kids_of (objs h1 n) = Some k"
  proof -
    from that assms(2) have c: "st = None \<or> st = Some Continue" and i: "0 \<le> i"
      and e: "kids_of (objs h1 (arrays h a ! nat i)) = Some k"
      by (auto split: if_splits)
    from step(5) [OF c i e] show ?thesis .
  qed
  have after: "\<exists>s' h'. walk_from (Suc fuel) (logged visit) (s, log) h a i
                        = Some (Inr ((s', log @ [Some n] @ map Some (preorder_forest us)
                                           @ map Some (preorder_forest ts)), h'))"
    if "(st = None \<or> st = Some Continue) \<and> node = Some n \<and> kids_of (objs h1 n) = Some k
            \<and> onlooker_on S visit \<and> s1 \<in> S
            \<and> forest_shape h1 k us
            \<and> arrays h1 a = pre @ map root ts \<and> int (length pre) = i1 + 1
            \<and> list_all (shape h1) ts
            \<and> forest_count us + forest_count ts < fuel"
  proof -
    from that have c: "st = None \<or> st = Some Continue" and n: "node = Some n"
      and k: "kids_of (objs h1 n) = Some k" and o: "onlooker_on S visit" and s1: "s1 \<in> S"
      and ku: "arrays h1 k = [] @ map root us" and su: "\<forall>t\<in>set us. shape h1 t"
      and at: "arrays h1 a = pre @ map root ts" and len: "int (length pre) = i1 + 1"
      and sts: "\<forall>t\<in>set ts. shape h1 t"
      and cu: "forest_count us < fuel" and ct: "forest_count ts < fuel"
      by (simp_all add: forest_shape_def list_all_iff)
    from n assms(2) have i: "0 \<le> i" "arrays h a ! nat i = n" by (simp_all split: if_splits)
    have lv: "logged visit (s, log) h (if 0 \<le> i then Some (arrays h a ! nat i) else None)
        = ((s1, log @ [Some n]), steps, st)"
      using logged_visit [where visit = visit and s = s and log = log, OF v] i by simp
    note lstep = walk_from_visit [where visit = "logged visit" and s = "(s, log)" and fuel = fuel,
        OF assms(1) lv assms(4)]
    from k i have k': "kids_of (objs h1 (arrays h a ! nat i)) = Some k" by simp
    note first = lstep(5) [OF c i(1) k']
    from onlooker_walk_from [OF o ku su cu s1, of "log @ [Some n]"]
    obtain s2 h2 where s2: "s2 \<in> S"
      and w2: "walk_from fuel (logged visit) (s1, log @ [Some n]) h1 k 0
          = Some (Inr ((s2, (log @ [Some n]) @ map Some (preorder_forest us)), h2))"
      and a2: "arrays h2 = arrays h1" and k2: "\<And>r. kids_of (objs h2 r) = kids_of (objs h1 r)"
      by auto
    have at2: "arrays h2 a = pre @ map root ts" using at a2 by simp
    have sts2: "\<forall>t\<in>set ts. shape h2 t" using sts shape_same [OF a2 k2] by simp
    from onlooker_walk_from [OF o at2 sts2 ct s2, of "(log @ [Some n]) @ map Some (preorder_forest us)"]
      len
    obtain s' h' where "walk_from fuel (logged visit)
            (s2, (log @ [Some n]) @ map Some (preorder_forest us)) h2 a (i1 + 1)
          = Some (Inr ((s', ((log @ [Some n]) @ map Some (preorder_forest us))
                              @ map Some (preorder_forest ts)), h'))"
      by auto
    with first w2 show ?thesis by simp
  qed
  show ?thesis
    apply (intro conjI impI)
    subgoal using idx by simp
    subgoal using idx by simp
    subgoal using idx by simp
    subgoal by (rule step(1))
    subgoal by (rule step(2))
    subgoal by (rule undef)
    subgoal by (rule leaf)
    subgoal by (rule deep)
    subgoal by (rule after)
    done
qed

theorem descent_after_visit_witness:
  "walk_from 5 (logged (replace_first_rule 2)) (False, []) rule_with_child 0 0
     = Some (Inr ((True, [Some 0, Some 1, Some 2]),
                  rule_with_child\<lparr>arrays := (arrays rule_with_child)(0 := [2])\<rparr>))
   \<and> walk_from 1 (replace_twice 0 2 3) ()
         (declarations\<lparr>arrays := (arrays declarations)(0 := [2, 3])\<rparr>) 0 (- 1)
     = Some (Inl TypeError)"
proof -
  let ?h1 = "rule_with_child\<lparr>arrays := (arrays rule_with_child)(0 := [2])\<rparr>"
  let ?d = "declarations\<lparr>arrays := (arrays declarations)(0 := [2, 3])\<rparr>"
  have b1: "0 < int (length (arrays rule_with_child 0))"
    by (simp add: rule_with_child_def)
  have n1: "Some 0 = (if (0::int) \<le> 0 then Some (arrays rule_with_child 0 ! nat 0) else None)"
    by (simp add: rule_with_child_def)
  have v1: "replace_first_rule 2 False rule_with_child (Some 0)
      = (True, [ReplaceWith (One 2)], Some Continue)"
    by (simp add: replace_first_rule_def rule_with_child_def empty_heap_def)
  have r1: "run_steps 0 [ReplaceWith (One 2)] (rule_with_child, 0) = (?h1, - 1)"
    by (simp add: rule_with_child_def array_splice_def)
  have c1: "(Some Continue = None \<or> Some Continue = Some Continue) \<and> Some (0::nat) = Some 0
      \<and> kids_of (objs ?h1 0) = Some 1
      \<and> onlooker_on {True} (replace_first_rule 2) \<and> True \<in> {True}
      \<and> forest_shape ?h1 1 [RNode 1 []]
      \<and> arrays ?h1 0 = [] @ map root [RNode 2 []] \<and> int (length ([]::nref list)) = - 1 + 1
      \<and> list_all (shape ?h1) [RNode 2 []]
      \<and> forest_count [RNode 1 []] + forest_count [RNode 2 []] < 4"
    by (simp add: rule_with_child_def empty_heap_def forest_shape_def onlooker_on_def
        replace_first_rule_def split: option.splits obj.splits)
  have b2: "- 1 < int (length (arrays ?d 0))"
    by simp
  have n2: "None = (if (0::int) \<le> - 1 then Some (arrays ?d 0 ! nat (- 1)) else None)"
    by simp
  have v2: "replace_twice 0 2 3 () ?d None = ((), [], None)"
    by (simp add: replace_twice_def)
  have r2: "run_steps 0 [] (?d, - 1) = (?d, - 1)"
    by simp
  from descent_after_visit [where visit = "replace_first_rule 2" and s = False and fuel = 4
        and n = 0 and k = 1 and S = "{True}" and us = "[RNode 1 []]" and pre = "[]"
        and ts = "[RNode 2 []]" and log = "[]", OF b1 n1 v1 r1] c1
  have "\<exists>s' h'. walk_from 5 (logged (replace_first_rule 2)) (False, []) rule_with_child 0 0
          = Some (Inr ((s', [Some 0, Some 1, Some 2]), h'))"
    by (simp del: walk_from.simps add: eval_nat_numeral)
  moreover from descent_after_visit [where visit = "replace_twice 0 2 3" and s = "()" and fuel = 0,
        OF b2 n2 v2 r2]
  have "walk_from 1 (replace_twice 0 2 3) () ?d 0 (- 1) = Some (Inl TypeError)"
    by (simp del: walk_from.simps)
  ultimately show ?thesis
    by (simp add: rule_with_child_def empty_heap_def replace_first_rule_def logged_def
        array_splice_def eval_nat_numeral)
qed

section \<open>The serializer: declarations, at-rules, hoisting, tracking\<close>


text \<open>
  Claim C10.  A rule at depth 0 whose selector starts with \<open>@property\<close> and a space
  and that has no children is rendered by the branch for empty at-rules, as its
  selector and a semicolon on a line, whatever the set of seen selectors holds; the
  set is left as it was, so every copy of such a rule is rendered.
\<close>

theorem childless_property_rule_never_deduplicated:
  assumes "prefix ''@property '' sel"
  shows "stringify 0 st (Rule sel [] ms)
           = (sel @ '';'' @ [newline], advance 1 st, Rule sel [] (push_mapping st [] ms))
         \<and> seenAtProperties (advance 1 st) = seenAtProperties st
         \<and> toCss (replicate k (Rule sel [] ms)) False = concat (replicate k (sel @ '';'' @ [newline]))"
proof -
  note sel = property_selector [OF assms]
  have one: "stringify 0 st' (Rule sel [] ms)
           = (sel @ '';'' @ [newline], advance 1 st', Rule sel [] (push_mapping st' [] ms))" for st'
    using sel by (simp add: indent_of_0)
  have all: "location st' = None \<Longrightarrow> atRoots st' = [] \<Longrightarrow> stringifyAll 0 st' (replicate k (Rule sel [] ms))
           = (concat (replicate k (sel @ '';'' @ [newline])), st', replicate k (Rule sel [] ms))" for st'
  proof (induction k)
    case 0
    then show ?case by simp
  next
    case (Suc k)
    have "advance 1 st' = st'" using Suc.prems by (simp add: advance_def)
    moreover have "push_mapping st' [] ms = ms" using Suc.prems by (simp add: push_mapping_def)
    ultimately show ?case using Suc one [of st'] by simp
  qed
  have "toCss (replicate k (Rule sel [] ms)) False = concat (replicate k (sel @ '';'' @ [newline]))"
    by (simp add: toCss_def toCss_run_def all Let_def)
  then show ?thesis using one by (simp add: seen_advance)
qed

theorem childless_property_rule_witness:
  "stringify 0 \<lparr>atRoots = [], seenAtProperties = {''@property --x''}, location = None\<rparr>
       (Rule ''@property --x'' [] [])
     = (''@property --x;'' @ [newline],
        \<lparr>atRoots = [], seenAtProperties = {''@property --x''}, location = None\<rparr>,
        Rule ''@property --x'' [] [])
   \<and> toCss [Rule ''@property --x'' [] [], Rule ''@property --x'' [] []] False
     = ''@property --x;'' @ [newline] @ ''@property --x;'' @ [newline]"
  using childless_property_rule_never_deduplicated [of "''@property --x''"
      "\<lparr>atRoots = [], seenAtProperties = {''@property --x''}, location = None\<rparr>" "[]" 2]
  by (simp add: advance_def push_mapping_def eval_nat_numeral Let_def)




text \<open>
  Claim C2 (the code at the failing input).  An \<open>@at-root\<close> rule inside hoisted
  content is met by the second pass, which appends its children to \<open>atRoots\<close> once
  more; no later pass renders them, so the declaration is collected and never
  rendered.  Hoisted content that holds no \<open>@at-root\<close> rule is rendered after the
  main content, as in the spec's example.
\<close>

theorem nested_at_root_never_flushed:
  "toCss_run [rule' ''@at-root'' [rule' ''@at-root'' [decl' ''color'' ''red'']]] False
     = ('''',
        [rule' ''@at-root'' [rule' ''@at-root'' [decl' ''color'' ''red'']]],
        [rule' ''@at-root'' [decl' ''color'' ''red'']],
        \<lparr>atRoots = [rule' ''@at-root'' [decl' ''color'' ''red''], decl' ''color'' ''red''],
         seenAtProperties = {}, location = None\<rparr>)
   \<and> toCss [rule' ''@at-root'' [decl' ''color'' ''red''], rule' ''.a'' [decl' ''color'' ''blue'']] False
     = ''.a {'' @ [newline] @ ''  color: blue;'' @ [newline] @ ''}'' @ [newline]
         @ ''color: red;'' @ [newline]"
  by (simp add: toCss_def toCss_run_def rule_def decl_def Let_def indent_of_def advance_def
      push_mapping_def)

text \<open>
  Claim C7 (counterexample).  The selector holds a line break, so the rule's text is
  three lines; the cursor moves by two, and the comment, which is on line 4 of the
  text, is given line 3.
\<close>

theorem destination_tracking_counterexample:
  "toCss_run [rule' (''.a,'' @ [newline] @ ''.b'') [], comment' ''x''] True
     = (''.a,'' @ [newline] @ ''.b {'' @ [newline] @ ''}'' @ [newline] @ ''/*x*/'' @ [newline],
        [Rule (''.a,'' @ [newline] @ ''.b'') [] [destination_at 1 0],
         Comment ''x'' [destination_at 3 0]],
        [],
        \<lparr>atRoots = [], seenAtProperties = {}, location = Some \<lparr>line = 4, column = 0\<rparr>\<rparr>)"
  by (simp add: toCss_run_def rule_def comment_def Let_def indent_of_def advance_def
      push_mapping_def eval_nat_numeral)

text \<open>
  Claim C7 (amended).  For a tree none of whose selectors and property names holds a
  line break, with destination tracking on: rendering a node moves the cursor's line
  by the number of line breaks in the node's text; a node that produces a line of its
  own gains exactly one mapping, at the cursor's line before the node and at column
  twice the depth, which is the length of the indentation its text starts with, and
  any other node gains none; the mapping of the node after a run of siblings is at
  the line the cursor reached over them.  The children of a rule rendered as a block
  are rendered between its opening and closing lines, one level deeper and from the
  line after the rule's own, so a child is mapped at column twice the depth plus 2 and
  at the rule's line plus 1 plus the line breaks of the children before it; the
  children of a \<open>@tailwind utilities\<close> rule are rendered at the rule's own depth and
  cursor; hoisted nodes are rendered at depth 0 from the state the main pass ended in,
  so a hoisted node is mapped at column 0 and at line 1 plus the line breaks of the
  main text and of the hoisted nodes before it.  After a whole call the cursor, which
  started at line 1, stands at 1 plus the number of line breaks of the text.  A
  comment with one line break in its value moves the cursor by 2, and its next sibling
  is mapped two lines further down.
\<close>

theorem destination_tracking:
  assumes "names_on_one_line n" and "location st = Some loc"
  shows "location (fst (snd (stringify depth st n)))
           = Some (loc\<lparr>line := line loc + count_list (fst (stringify depth st n)) newline\<rparr>)
       \<and> mappings (snd (snd (stringify depth st n)))
           = mappings n @ (if emitted depth st n then [destination_at (line loc) (2 * depth)] else [])
       \<and> (emitted depth st n \<longrightarrow>
            prefix (indent_of depth) (fst (stringify depth st n))
            \<and> length (indent_of depth) = 2 * depth)
       \<and> (forest_names_on_one_line xs \<longrightarrow>
            mappings (last (snd (snd (stringifyAll depth st (xs @ [n])))))
              = mappings n
                @ (if emitted depth (fst (snd (stringifyAll depth st xs))) n
                   then [destination_at (line loc + count_list (fst (stringifyAll depth st xs)) newline)
                           (2 * depth)]
                   else []))
       \<and> (forest_names_on_one_line ast \<longrightarrow>
            location (snd (snd (snd (toCss_run ast True))))
              = Some \<lparr>line = 1 + count_list (toCss ast True) newline, column = 0\<rparr>)
       \<and> (newline \<notin> set a \<and> newline \<notin> set b \<longrightarrow>
            location (fst (snd (stringify depth st (Comment (a @ [newline] @ b) ms))))
              = Some (loc\<lparr>line := line loc + 2\<rparr>)
            \<and> snd (snd (stringifyAll depth st [Comment (a @ [newline] @ b) ms, Comment c ms']))
              = [Comment (a @ [newline] @ b) (ms @ [destination_at (line loc) (2 * depth)]),
                 Comment c (ms' @ [destination_at (line loc + 2) (2 * depth)])])
       \<and> (sel \<noteq> ''@at-root'' \<and> sel \<noteq> ''@tailwind utilities''
            \<and> \<not> (prefix ''@property '' sel \<and> depth = 0 \<and> sel \<in> seenAtProperties st)
            \<and> forest_names_on_one_line cs \<longrightarrow>
            fst (stringify depth st (Rule sel (cs @ [chd]) ms0))
              = indent_of depth @ sel @ '' {'' @ [newline]
                  @ fst (stringifyAll (Suc depth) (advance 1 (mark_seen depth sel st)) (cs @ [chd]))
                  @ indent_of depth @ ''}'' @ [newline]
            \<and> location (advance 1 (mark_seen depth sel st)) = Some (loc\<lparr>line := line loc + 1\<rparr>)
            \<and> mappings (last (nodes (snd (snd (stringify depth st (Rule sel (cs @ [chd]) ms0))))))
              = mappings chd
                @ (if emitted (Suc depth)
                        (fst (snd (stringifyAll (Suc depth) (advance 1 (mark_seen depth sel st)) cs))) chd
                   then [destination_at
                           (line loc + 1
                              + count_list (fst (stringifyAll (Suc depth)
                                                   (advance 1 (mark_seen depth sel st)) cs)) newline)
                           (2 * Suc depth)]
                   else []))
       \<and> (forest_names_on_one_line cs \<longrightarrow>
            mappings (last (nodes (snd (snd (stringify depth st
                        (Rule ''@tailwind utilities'' (cs @ [chd]) ms0))))))
              = mappings chd
                @ (if emitted depth (fst (snd (stringifyAll depth st cs))) chd
                   then [destination_at (line loc + count_list (fst (stringifyAll depth st cs)) newline)
                           (2 * depth)]
                   else []))
       \<and> fst (snd (snd (toCss_run ast True)))
           = snd (snd (stringifyAll 0
               (fst (snd (stringifyAll 0 \<lparr>atRoots = [], seenAtProperties = {},
                                        location = Some \<lparr>line = 1, column = 0\<rparr>\<rparr> ast)))
               (atRoots (fst (snd (stringifyAll 0 \<lparr>atRoots = [], seenAtProperties = {},
                                        location = Some \<lparr>line = 1, column = 0\<rparr>\<rparr> ast))))))
       \<and> (forest_names_on_one_line ast
            \<and> atRoots (fst (snd (stringifyAll 0 \<lparr>atRoots = [], seenAtProperties = {},
                                   location = Some \<lparr>line = 1, column = 0\<rparr>\<rparr> ast))) = hs @ [h] \<longrightarrow>
            mappings (last (fst (snd (snd (toCss_run ast True)))))
              = mappings h
                @ (if emitted 0
                        (fst (snd (stringifyAll 0
                           (fst (snd (stringifyAll 0 \<lparr>atRoots = [], seenAtProperties = {},
                                        location = Some \<lparr>line = 1, column = 0\<rparr>\<rparr> ast))) hs))) h
                   then [destination_at
                           (1 + count_list (fst (stringifyAll 0 \<lparr>atRoots = [], seenAtProperties = {},
                                        location = Some \<lparr>line = 1, column = 0\<rparr>\<rparr> ast)) newline
                              + count_list (fst (stringifyAll 0
                                  (fst (snd (stringifyAll 0 \<lparr>atRoots = [], seenAtProperties = {},
                                        location = Some \<lparr>line = 1, column = 0\<rparr>\<rparr> ast))) hs)) newline)
                           0]
                   else []))"
proof -
  have cursor: "location (fst (snd (stringify depth st n)))
           = Some (loc\<lparr>line := line loc + count_list (fst (stringify depth st n)) newline\<rparr>)"
    using cursor_counts_lines(1) [OF assms(1), of depth st] assms(2) by simp
  have own: "mappings (snd (snd (stringify depth st n)))
           = mappings n @ (if emitted depth st n then [destination_at (line loc) (2 * depth)] else [])"
    using mappings_appended [of depth st n] assms(2) by simp
  have indent: "prefix (indent_of depth) (fst (stringify depth st n))
            \<and> length (indent_of depth) = 2 * depth" if "emitted depth st n"
    using emitted_starts_with_indent [OF that] by (simp add: length_indent_of)
  have sibling: "mappings (last (snd (snd (stringifyAll depth st (xs @ [n])))))
              = mappings n
                @ (if emitted depth (fst (snd (stringifyAll depth st xs))) n
                   then [destination_at (line loc + count_list (fst (stringifyAll depth st xs)) newline)
                           (2 * depth)]
                   else [])" if "forest_names_on_one_line xs"
    using cursor_counts_lines(2) [OF that, of depth st] assms(2)
      mappings_appended [of depth "fst (snd (stringifyAll depth st xs))" n]
    by (simp add: stringifyAll_snoc_proj del: stringifyAll.simps)
  have whole: "location (snd (snd (snd (toCss_run ast True))))
              = Some \<lparr>line = 1 + count_list (toCss ast True) newline, column = 0\<rparr>"
    if "forest_names_on_one_line ast"
  proof -
    let ?st0 = "\<lparr>atRoots = [], seenAtProperties = {}, location = Some \<lparr>line = 1, column = 0\<rparr>\<rparr>"
    let ?main = "stringifyAll 0 ?st0 ast"
    have m: "location (fst (snd ?main))
        = Some \<lparr>line = 1 + count_list (fst ?main) newline, column = 0\<rparr>"
      using cursor_counts_lines(2) [OF that, of 0 ?st0] by simp
    have "forest_names_on_one_line (atRoots (fst (snd ?main)))"
      using atRoots_names(2) [OF that, of ?st0 0] by simp
    from cursor_counts_lines(2) [OF this, of 0 "fst (snd ?main)"] m
    show ?thesis
      by (simp add: toCss_def toCss_run_proj Let_def add.assoc)
  qed
  have example: "location (fst (snd (stringify depth st (Comment (a @ [newline] @ b) ms))))
              = Some (loc\<lparr>line := line loc + 2\<rparr>)
            \<and> snd (snd (stringifyAll depth st [Comment (a @ [newline] @ b) ms, Comment c ms']))
              = [Comment (a @ [newline] @ b) (ms @ [destination_at (line loc) (2 * depth)]),
                 Comment c (ms' @ [destination_at (line loc + 2) (2 * depth)])]"
    if "newline \<notin> set a \<and> newline \<notin> set b"
  proof -
    from that have "count_list (a @ [newline] @ b) newline = 1"
      by simp
    then show ?thesis
      using assms(2)
      by (simp add: stringify_Comment location_advance push_mapping_def length_indent_of
          del: stringify.simps count_list.simps)
  qed
  have sib: "mappings (last (snd (snd (stringifyAll d s (ys @ [m])))))
              = mappings m
                @ (if emitted d (fst (snd (stringifyAll d s ys))) m
                   then [destination_at (line l + count_list (fst (stringifyAll d s ys)) newline) (2 * d)]
                   else [])"
    if "forest_names_on_one_line ys" "location s = Some l" for d s ys m l
    using cursor_counts_lines(2) [OF that(1), of d s] that(2)
      mappings_appended [of d "fst (snd (stringifyAll d s ys))" m]
    by (simp add: stringifyAll_snoc_proj del: stringifyAll.simps)
  have child: "fst (stringify depth st (Rule sel (cs @ [chd]) ms0))
              = indent_of depth @ sel @ '' {'' @ [newline]
                  @ fst (stringifyAll (Suc depth) (advance 1 (mark_seen depth sel st)) (cs @ [chd]))
                  @ indent_of depth @ ''}'' @ [newline]
            \<and> location (advance 1 (mark_seen depth sel st)) = Some (loc\<lparr>line := line loc + 1\<rparr>)
            \<and> mappings (last (nodes (snd (snd (stringify depth st (Rule sel (cs @ [chd]) ms0))))))
              = mappings chd
                @ (if emitted (Suc depth)
                        (fst (snd (stringifyAll (Suc depth) (advance 1 (mark_seen depth sel st)) cs))) chd
                   then [destination_at
                           (line loc + 1
                              + count_list (fst (stringifyAll (Suc depth)
                                                   (advance 1 (mark_seen depth sel st)) cs)) newline)
                           (2 * Suc depth)]
                   else [])"
    if "sel \<noteq> ''@at-root'' \<and> sel \<noteq> ''@tailwind utilities''
            \<and> \<not> (prefix ''@property '' sel \<and> depth = 0 \<and> sel \<in> seenAtProperties st)
            \<and> forest_names_on_one_line cs"
  proof -
    let ?s = "advance 1 (mark_seen depth sel st)"
    have l: "location ?s = Some (loc\<lparr>line := line loc + 1\<rparr>)"
      using assms(2) by (simp add: location_advance location_mark_seen)
    have b: "stringify depth st (Rule sel (cs @ [chd]) ms0)
           = (indent_of depth @ sel @ '' {'' @ [newline]
                @ fst (stringifyAll (Suc depth) ?s (cs @ [chd]))
                @ indent_of depth @ ''}'' @ [newline],
              advance 1 (fst (snd (stringifyAll (Suc depth) ?s (cs @ [chd])))),
              Rule sel (snd (snd (stringifyAll (Suc depth) ?s (cs @ [chd]))))
                (push_mapping st (indent_of depth) ms0))"
      by (rule stringify_block_proj) (use that in simp_all)
    from that have "forest_names_on_one_line cs" by simp
    from sib [where d = "Suc depth" and m = chd, OF this l] b l show ?thesis
      by (simp del: stringify.simps stringifyAll.simps)
  qed
  have inline: "mappings (last (nodes (snd (snd (stringify depth st
                        (Rule ''@tailwind utilities'' (cs @ [chd]) ms0))))))
              = mappings chd
                @ (if emitted depth (fst (snd (stringifyAll depth st cs))) chd
                   then [destination_at (line loc + count_list (fst (stringifyAll depth st cs)) newline)
                           (2 * depth)]
                   else [])"
    if "forest_names_on_one_line cs"
    using sib [where d = depth and m = chd, OF that assms(2)]
    by (simp add: stringify_utilities_proj del: stringify.simps stringifyAll.simps)
  let ?st0 = "\<lparr>atRoots = [], seenAtProperties = {}, location = Some \<lparr>line = 1, column = 0\<rparr>\<rparr>"
  let ?main = "stringifyAll 0 ?st0 ast"
  have second: "fst (snd (snd (toCss_run ast True)))
           = snd (snd (stringifyAll 0 (fst (snd ?main)) (atRoots (fst (snd ?main)))))"
    by (simp add: toCss_run_proj Let_def)
  have hoisted: "mappings (last (fst (snd (snd (toCss_run ast True)))))
              = mappings h
                @ (if emitted 0 (fst (snd (stringifyAll 0 (fst (snd ?main)) hs))) h
                   then [destination_at
                           (1 + count_list (fst ?main) newline
                              + count_list (fst (stringifyAll 0 (fst (snd ?main)) hs)) newline)
                           0]
                   else [])"
    if "forest_names_on_one_line ast \<and> atRoots (fst (snd ?main)) = hs @ [h]"
  proof -
    from that have f: "forest_names_on_one_line ast" and a: "atRoots (fst (snd ?main)) = hs @ [h]"
      by simp_all
    have m: "location (fst (snd ?main))
        = Some \<lparr>line = 1 + count_list (fst ?main) newline, column = 0\<rparr>"
      using cursor_counts_lines(2) [OF f, of 0 ?st0] by simp
    have "forest_names_on_one_line (atRoots (fst (snd ?main)))"
      using atRoots_names(2) [OF f, of ?st0 0] by simp
    with a have "forest_names_on_one_line hs"
      by (simp add: forest_names_append)
    from sib [where d = 0 and m = h, OF this m] second a show ?thesis
      by (simp del: stringifyAll.simps)
  qed
  from cursor own indent sibling whole example child inline second hoisted show ?thesis by blast
qed

theorem destination_tracking_witness:
  "toCss_run [comment' (''a'' @ [newline] @ ''b''), rule' ''.c'' [decl' ''color'' ''red'']] True
     = (''/*a'' @ [newline] @ ''b*/'' @ [newline] @ ''.c {'' @ [newline]
          @ ''  color: red;'' @ [newline] @ ''}'' @ [newline],
        [Comment (''a'' @ [newline] @ ''b'') [destination_at 1 0],
         Rule ''.c'' [Declaration ''color'' (Some ''red'') False [destination_at 4 2]]
           [destination_at 3 0]],
        [],
        \<lparr>atRoots = [], seenAtProperties = {}, location = Some \<lparr>line = 6, column = 0\<rparr>\<rparr>)
   \<and> location (fst (snd (stringify 0
         \<lparr>atRoots = [], seenAtProperties = {}, location = Some \<lparr>line = 1, column = 0\<rparr>\<rparr>
         (comment' (''a'' @ [newline] @ ''b'')))))
       = Some \<lparr>line = 3, column = 0\<rparr>
   \<and> mappings (last (nodes (snd (snd (stringify 0
         \<lparr>atRoots = [], seenAtProperties = {}, location = Some \<lparr>line = 1, column = 0\<rparr>\<rparr>
         (Rule ''.c'' ([comment' ''d''] @ [decl' ''color'' ''red'']) []))))))
       = [destination_at 3 2]"
proof -
  have n: "names_on_one_line (comment' (''a'' @ [newline] @ ''b''))"
    by (simp add: comment_def)
  have l: "location \<lparr>atRoots = [], seenAtProperties = {}, location = Some \<lparr>line = 1, column = 0\<rparr>\<rparr>
      = Some \<lparr>line = 1, column = 0\<rparr>"
    by simp
  have f: "forest_names_on_one_line
      [comment' (''a'' @ [newline] @ ''b''), rule' ''.c'' [decl' ''color'' ''red'']]"
    by (simp add: comment_def rule_def decl_def)
  from destination_tracking [OF n l, of 0 "[]"
      "[comment' (''a'' @ [newline] @ ''b''), rule' ''.c'' [decl' ''color'' ''red'']]" "''a''" "''b''"
      "[]" "''c''" "[]" "''.c''" "[comment' ''d'']" "decl' ''color'' ''red''" "[]"] f
  show ?thesis
    by (simp add: toCss_run_def rule_def decl_def comment_def Let_def indent_of_def advance_def
        push_mapping_def eval_nat_numeral)
qed

text \<open>
  Claim C9.  Without destination tracking a call of \<open>toCss\<close> leaves the forest and
  the hoisted nodes exactly as they were, so a second call on the same tree starts
  from the same tree and, as every call does, from an empty set of seen selectors and
  an empty hoist buffer, and returns the same text.  An \<open>@property\<close> rule is
  rendered again by the second call, and hoisted content is rendered once by each.
\<close>

theorem toCss_untracked_repeatable:
  "fst (snd (toCss_run ast False)) = ast
   \<and> fst (snd (snd (toCss_run ast False)))
       = atRoots (fst (snd (stringifyAll 0 \<lparr>atRoots = [], seenAtProperties = {}, location = None\<rparr> ast)))
   \<and> location (snd (snd (snd (toCss_run ast False)))) = None
   \<and> toCss (fst (snd (toCss_run ast False))) False = toCss ast False
   \<and> toCss (fst (snd (toCss_run [rule' ''@property --x'' [decl' ''syntax'' ''*'']] False))) False
       = ''@property --x {'' @ [newline] @ ''  syntax: *;'' @ [newline] @ ''}'' @ [newline]
   \<and> toCss (fst (snd (toCss_run [rule' ''@at-root'' [decl' ''color'' ''red'']] False))) False
       = ''color: red;'' @ [newline]"
proof -
  let ?st0 = "\<lparr>atRoots = [], seenAtProperties = {}, location = None\<rparr>"
  let ?main = "stringifyAll 0 ?st0 ast"
  have main: "snd (snd ?main) = ast" "location (fst (snd ?main)) = None"
    using untracked_unchanged(2) [of ?st0 0 ast] by simp_all
  have flush: "snd (snd (stringifyAll 0 (fst (snd ?main)) (atRoots (fst (snd ?main)))))
                 = atRoots (fst (snd ?main))"
      "location (fst (snd (stringifyAll 0 (fst (snd ?main)) (atRoots (fst (snd ?main)))))) = None"
    using untracked_unchanged(2) [OF main(2)] by simp_all
  have same: "fst (snd (toCss_run xs False)) = xs" for xs
  proof -
    let ?m = "stringifyAll 0 ?st0 xs"
    have m: "snd (snd ?m) = xs" "location (fst (snd ?m)) = None"
      using untracked_unchanged(2) [of ?st0 0 xs] by simp_all
    have f: "snd (snd (stringifyAll 0 (fst (snd ?m)) (atRoots (fst (snd ?m)))))
                 = atRoots (fst (snd ?m))"
      using untracked_unchanged(2) [OF m(2)] by simp
    obtain H where H: "atRoots (fst (snd ?m)) = atRoots ?st0 @ H"
      "\<And>rest. put_back_all 0 (seenAtProperties ?st0) (H @ rest) xs
          = (xs, seenAtProperties (fst (snd ?m)), rest)"
      using put_back_restores(2) [of 0 ?st0 xs] by blast
    from H(1) have H': "atRoots (fst (snd ?m)) = H" by simp
    from H(2) [of "[]"] have "fst (put_back_all 0 {} H xs) = xs" by simp
    with m f H' show ?thesis by (simp add: toCss_run_proj Let_def)
  qed
  note a = same [of "[rule' ''@property --x'' [decl' ''syntax'' ''*'']]"]
    and b = same [of "[rule' ''@at-root'' [decl' ''color'' ''red'']]"]
  have "toCss [rule' ''@property --x'' [decl' ''syntax'' ''*'']] False
       = ''@property --x {'' @ [newline] @ ''  syntax: *;'' @ [newline] @ ''}'' @ [newline]"
    by (simp add: toCss_def toCss_run_def rule_def decl_def Let_def indent_of_def advance_def
        push_mapping_def)
  moreover have "toCss [rule' ''@at-root'' [decl' ''color'' ''red'']] False = ''color: red;'' @ [newline]"
    by (simp add: toCss_def toCss_run_def rule_def decl_def Let_def indent_of_def advance_def
        push_mapping_def)
  ultimately show ?thesis
    using same [of ast] main flush by (simp add: a b) (simp add: toCss_run_proj Let_def)
qed

end
